theory Spec2Isabelle
  imports Main "HOL-Library.Product_Lexorder" "HOL-Library.Char_ord" "HOL-Library.List_Lexorder"
begin

section \<open>Python primitives used by apuzzle\_solver.py\<close>

text \<open>
  Python integers are unbounded, so coordinates, cells, months and days are \<open>int\<close>.
  Positions produced by \<open>len\<close> and \<open>enumerate\<close> (column indices, row identifiers)
  are \<open>nat\<close>. Every exception the source can raise is a value: a computation returns
  \<open>Inl e\<close> when it raises \<open>e\<close> and \<open>Inr v\<close> when it returns \<open>v\<close>.
\<close>

datatype py_error = ValueError | KeyError | IndexError

definition bind_err :: "py_error + 'a \<Rightarrow> ('a \<Rightarrow> py_error + 'b) \<Rightarrow> py_error + 'b" where
  "bind_err m f = (case m of Inl e \<Rightarrow> Inl e | Inr x \<Rightarrow> f x)"

text \<open>A \<open>for x in xs: body\<close> loop over a state; the first exception leaves the loop.\<close>

fun for_each :: "('a \<Rightarrow> 's \<Rightarrow> py_error + 's) \<Rightarrow> 'a list \<Rightarrow> 's \<Rightarrow> py_error + 's" where
  "for_each body [] s = Inr s"
| "for_each body (x # xs) s = bind_err (body x s) (for_each body xs)"

text \<open>\<open>range(n)\<close>: the integers \<open>0, ..., n - 1\<close>, empty when \<open>n \<le> 0\<close>.\<close>

definition py_range :: "int \<Rightarrow> int list" where
  "py_range n = [0..n - 1]"

text \<open>\<open>max(xs)\<close> and \<open>min(xs)\<close> raise ValueError on an empty sequence.\<close>

definition py_max :: "int list \<Rightarrow> py_error + int" where
  "py_max xs = (case xs of [] \<Rightarrow> Inl ValueError | x # ys \<Rightarrow> Inr (fold max ys x))"

definition py_min :: "int list \<Rightarrow> py_error + int" where
  "py_min xs = (case xs of [] \<Rightarrow> Inl ValueError | x # ys \<Rightarrow> Inr (fold min ys x))"

text \<open>
  \<open>xs[i]\<close> on a list: a negative index counts from the end, an index out of range
  raises IndexError. \<open>d[k]\<close> on a dict raises KeyError when the key is absent.
\<close>

definition py_index :: "'a list \<Rightarrow> int \<Rightarrow> py_error + 'a" where
  "py_index xs i =
     (if 0 \<le> i \<and> i < int (length xs) then Inr (xs ! nat i)
      else if i < 0 \<and> - int (length xs) \<le> i then Inr (xs ! nat (int (length xs) + i))
      else Inl IndexError)"

definition py_lookup :: "('k \<rightharpoonup> 'v) \<Rightarrow> 'k \<Rightarrow> py_error + 'v" where
  "py_lookup d k = (case d k of Some v \<Rightarrow> Inr v | None \<Rightarrow> Inl KeyError)"

section \<open>Board geometry\<close>

type_synonym cell = "int \<times> int"

definition ROW_WIDTHS :: "int list" where
  "ROW_WIDTHS = [6, 6, 7, 7, 7, 7, 3]"

text \<open>
  The module-level loop that fills \<open>BOARD_CELLS\<close> and \<open>CELL_TO_COL\<close> together:
  the index stored for a cell is the length of \<open>BOARD_CELLS\<close> before the cell is appended.
\<close>

definition board_add :: "int \<Rightarrow> int \<Rightarrow> cell list \<times> (cell \<rightharpoonup> nat) \<Rightarrow> cell list \<times> (cell \<rightharpoonup> nat)" where
  "board_add r c = (\<lambda>(cells, m). (cells @ [(r, c)], m((r, c) \<mapsto> length cells)))"

definition board_tables :: "cell list \<times> (cell \<rightharpoonup> nat)" where
  "board_tables =
     fold (\<lambda>(r, w). fold (board_add (int r)) (py_range w)) (enumerate 0 ROW_WIDTHS) ([], Map.empty)"

definition BOARD_CELLS :: "cell list" where
  "BOARD_CELLS = fst board_tables"

definition CELL_TO_COL :: "cell \<rightharpoonup> nat" where
  "CELL_TO_COL = snd board_tables"

definition month_cell :: "int \<Rightarrow> cell" where
  "month_cell m = (if m \<le> 6 then (0, m - 1) else (1, m - 7))"

definition day_cell :: "int \<Rightarrow> cell" where
  "day_cell d =
     (if d \<le> 7 then (2, d - 1)
      else if d \<le> 14 then (3, d - 8)
      else if d \<le> 21 then (4, d - 15)
      else if d \<le> 28 then (5, d - 22)
      else (6, d - 29))"

text \<open>
  A cell is on the board when its row is one of the rows of \<open>ROW_WIDTHS\<close> and its column,
  counted from 0, is less than the width of that row.
\<close>

definition valid_cell :: "cell \<Rightarrow> bool" where
  "valid_cell rc = (case rc of (r, c) \<Rightarrow>
     0 \<le> r \<and> r < int (length ROW_WIDTHS) \<and> 0 \<le> c \<and> c < ROW_WIDTHS ! nat r)"

section \<open>Pieces and their orientations\<close>

type_synonym raw_piece = "int list list"

text \<open>\<open>PIECES\<close> is a dict literal; it is iterated in insertion order.\<close>

definition PIECES :: "(string \<times> raw_piece) list" where
  "PIECES =
    [(''A'', [[1,0],[1,0],[1,0],[1,1]]),
     (''B'', [[1,0],[1,0],[1,1],[1,0]]),
     (''C'', [[1,0],[1,0],[1,1],[0,1]]),
     (''D'', [[1,1],[1,0],[1,1]]),
     (''E'', [[1,1],[1,1],[1,1]]),
     (''F'', [[1,0],[1,1],[1,1]]),
     (''G'', [[1,1,0],[0,1,0],[0,1,1]]),
     (''H'', [[1,0,0],[1,0,0],[1,1,1]])]"

type_synonym coordset = "(int \<times> int) list"
type_synonym transform = "coordset \<times> int \<times> bool"

definition grid_to_coords :: "raw_piece \<Rightarrow> coordset" where
  "grid_to_coords g =
     concat (map (\<lambda>(r, row). map (\<lambda>(c, v). (int r, int c))
                                   (filter (\<lambda>(c, v). v \<noteq> 0) (enumerate 0 row)))
                 (enumerate 0 g))"

definition rotate :: "coordset \<Rightarrow> py_error + coordset" where
  "rotate cs = bind_err (py_max (map fst cs)) (\<lambda>m.
     let h = m + 1 in Inr (map (\<lambda>(r, c). (c, h - 1 - r)) cs))"

definition flip :: "coordset \<Rightarrow> py_error + coordset" where
  "flip cs = bind_err (py_max (map snd cs)) (\<lambda>m.
     let w = m + 1 in Inr (map (\<lambda>(r, c). (r, w - 1 - c)) cs))"

text \<open>\<open>sorted\<close> on tuples of integers is the lexicographic order of pairs.\<close>

definition normalize :: "coordset \<Rightarrow> py_error + coordset" where
  "normalize cs = bind_err (py_min (map fst cs)) (\<lambda>mr.
     bind_err (py_min (map snd cs)) (\<lambda>mc.
       Inr (sort (map (\<lambda>(r, c). (r - mr, c - mc)) cs))))"

text \<open>\<open>for _ in range(rot // 90): cs = rotate(cs)\<close>\<close>

fun rotate_times :: "nat \<Rightarrow> coordset \<Rightarrow> py_error + coordset" where
  "rotate_times 0 cs = Inr cs"
| "rotate_times (Suc n) cs = bind_err (rotate cs) (rotate_times n)"

text \<open>The body of the inner loop of \<open>all_transforms\<close>, on the pair \<open>(seen, out)\<close>.\<close>

definition rot_body ::
  "coordset \<Rightarrow> bool \<Rightarrow> int \<Rightarrow> coordset set \<times> transform list
     \<Rightarrow> py_error + coordset set \<times> transform list" where
  "rot_body cs0 fl rot = (\<lambda>(seen, out).
     bind_err (rotate_times (nat (rot div 90)) cs0) (\<lambda>cs.
     bind_err (normalize cs) (\<lambda>ncs.
       if ncs \<notin> seen then Inr (insert ncs seen, out @ [(ncs, rot, fl)])
       else Inr (seen, out))))"

definition flip_body ::
  "coordset \<Rightarrow> bool \<Rightarrow> coordset set \<times> transform list
     \<Rightarrow> py_error + coordset set \<times> transform list" where
  "flip_body base fl st =
     bind_err (if fl then flip base else Inr base) (\<lambda>cs0.
       for_each (rot_body cs0 fl) [0, 90, 180, 270] st)"

definition all_transforms :: "raw_piece \<Rightarrow> py_error + transform list" where
  "all_transforms g =
     (let base = grid_to_coords g in
      bind_err (for_each (flip_body base) [False, True] ({}, [])) (\<lambda>(seen, out). Inr out))"

section \<open>Placements\<close>

record placement =
  piece :: string
  squares :: "nat list"
  top_left :: "int \<times> int"
  rotation :: int
  flipped :: bool

text \<open>The constructor of class \<open>Placement\<close> stores the squares sorted.\<close>

definition Placement :: "string \<Rightarrow> nat list \<Rightarrow> int \<times> int \<Rightarrow> int \<Rightarrow> bool \<Rightarrow> placement" where
  "Placement name sq corner rot fl =
     \<lparr>piece = name, squares = sort sq, top_left = corner, rotation = rot, flipped = fl\<rparr>"

text \<open>
  The innermost loop of \<open>generate_placements\<close> over the cells of an orientation:
  \<open>None\<close> when a cell is rejected (\<open>ok = False; break\<close>), otherwise the collected
  column indices.
\<close>

fun place_cells ::
  "cell set \<Rightarrow> int \<Rightarrow> int \<Rightarrow> coordset \<Rightarrow> nat list \<Rightarrow> py_error + nat list option" where
  "place_cells ex tr tc [] idxs = Inr (Some idxs)"
| "place_cells ex tr tc ((pr, pc) # rest) idxs =
     (let r = tr + pr; c = tc + pc in
      bind_err (py_index ROW_WIDTHS r) (\<lambda>w.
        if c \<ge> w \<or> (r, c) \<in> ex then Inr None
        else bind_err (py_lookup CELL_TO_COL (r, c)) (\<lambda>i.
               place_cells ex tr tc rest (idxs @ [i]))))"

definition anchor_body ::
  "cell set \<Rightarrow> string \<Rightarrow> transform \<Rightarrow> int \<Rightarrow> int \<Rightarrow> placement list
     \<Rightarrow> py_error + placement list" where
  "anchor_body ex name t tr tc res = (case t of (coords, rot, fl) \<Rightarrow>
     bind_err (place_cells ex tr tc coords []) (\<lambda>ok.
       case ok of None \<Rightarrow> Inr res
       | Some idxs \<Rightarrow> Inr (res @ [Placement name idxs (tr, tc) rot fl])))"

definition row_body ::
  "cell set \<Rightarrow> string \<Rightarrow> transform \<Rightarrow> int \<Rightarrow> int \<Rightarrow> placement list
     \<Rightarrow> py_error + placement list" where
  "row_body ex name t max_c tr res =
     bind_err (py_index ROW_WIDTHS tr) (\<lambda>w.
       for_each (anchor_body ex name t tr) (py_range (w - max_c)) res)"

definition transform_body ::
  "cell set \<Rightarrow> string \<Rightarrow> transform \<Rightarrow> placement list \<Rightarrow> py_error + placement list" where
  "transform_body ex name t res = (case t of (coords, rot, fl) \<Rightarrow>
     bind_err (py_max (map fst coords)) (\<lambda>max_r.
     bind_err (py_max (map snd coords)) (\<lambda>max_c.
       for_each (row_body ex name t max_c) (py_range (int (length ROW_WIDTHS) - max_r)) res)))"

definition piece_body ::
  "cell set \<Rightarrow> string \<times> raw_piece \<Rightarrow> placement list \<Rightarrow> py_error + placement list" where
  "piece_body ex p res = (case p of (name, grid) \<Rightarrow>
     bind_err (all_transforms grid) (\<lambda>ts. for_each (transform_body ex name) ts res))"

definition generate_placements :: "cell set \<Rightarrow> py_error + placement list" where
  "generate_placements ex = for_each (piece_body ex) PIECES []"

section \<open>The exact-cover solver\<close>

text \<open>
  The locals of \<open>solve_exact_cover\<close> that the nested functions \<open>choose\<close> and
  \<open>search\<close> read but never change.
\<close>

record ctx =
  placements :: "placement list"
  board_cols :: "nat set"
  piece_cols :: "string \<rightharpoonup> nat"
  universe :: "nat set"
  col_to_rows :: "nat \<rightharpoonup> nat list"

text \<open>The locals that \<open>search\<close> mutates: \<open>sol\<close>, \<open>used\<close> and the counter \<open>tries\<close>.\<close>

record state =
  sol :: "nat list"
  used :: "nat set"
  tries :: nat

text \<open>\<open>{CELL_TO_COL[xy] for xy in BOARD_CELLS if xy not in excluded}\<close>\<close>

definition make_board_cols :: "cell set \<Rightarrow> py_error + nat set" where
  "make_board_cols ex =
     for_each (\<lambda>xy acc. if xy \<notin> ex
                          then bind_err (py_lookup CELL_TO_COL xy) (\<lambda>i. Inr (insert i acc))
                          else Inr acc)
              BOARD_CELLS {}"

text \<open>\<open>max\<close> of a set of column indices; ValueError when the set is empty.\<close>

definition py_max_set :: "nat set \<Rightarrow> py_error + nat" where
  "py_max_set S = (if S = {} then Inl ValueError else Inr (Max S))"

text \<open>
  \<open>{p: max(board_cols) + 1 + i for i, p in enumerate(sorted(PIECES))}\<close>, as the list of
  its items in insertion order; the keys are the keys of a dict, hence distinct.
\<close>

definition make_piece_cols :: "nat set \<Rightarrow> py_error + (string \<times> nat) list" where
  "make_piece_cols bc =
     for_each (\<lambda>(i, p) acc. bind_err (py_max_set bc) (\<lambda>m. Inr (acc @ [(p, m + 1 + i)])))
              (enumerate 0 (sort (map fst PIECES))) []"

text \<open>
  The columns of a placement row:
  \<open>(set(pl.squares) & board_cols) | {piece_cols[pl.piece]}\<close>.
\<close>

definition cols_of :: "nat set \<Rightarrow> (string \<rightharpoonup> nat) \<Rightarrow> placement \<Rightarrow> py_error + nat set" where
  "cols_of bc pc pl =
     bind_err (py_lookup pc (piece pl)) (\<lambda>k. Inr ((set (squares pl) \<inter> bc) \<union> {k}))"

text \<open>
  One round of the loop that fills \<open>col_to_rows\<close>: \<open>idx\<close> is appended to the list of
  every column of the row. The lists of different columns are independent, so the order
  in which the set \<open>cols\<close> is iterated does not show; a column that is not a key raises
  KeyError.
\<close>

definition index_row ::
  "nat set \<Rightarrow> (string \<rightharpoonup> nat) \<Rightarrow> nat \<times> placement \<Rightarrow> (nat \<rightharpoonup> nat list)
     \<Rightarrow> py_error + (nat \<rightharpoonup> nat list)" where
  "index_row bc pc ip m = (case ip of (idx, pl) \<Rightarrow>
     bind_err (cols_of bc pc pl) (\<lambda>cols.
       if \<forall>c \<in> cols. m c \<noteq> None
       then Inr (\<lambda>c. if c \<in> cols then map_option (\<lambda>rows. rows @ [idx]) (m c) else m c)
       else Inl KeyError))"

definition make_ctx :: "placement list \<Rightarrow> cell set \<Rightarrow> py_error + ctx" where
  "make_ctx pls ex =
     bind_err (make_board_cols ex) (\<lambda>bc.
     bind_err (make_piece_cols bc) (\<lambda>pcs.
       let pc = map_of pcs;
           u = bc \<union> set (map snd pcs)
       in bind_err (for_each (index_row bc pc) (enumerate 0 pls)
                             (\<lambda>c. if c \<in> u then Some [] else None)) (\<lambda>c2r.
            Inr \<lparr>placements = pls, board_cols = bc, piece_cols = pc,
                  universe = u, col_to_rows = c2r\<rparr>)))"

text \<open>
  The key of \<open>choose\<close>:
  \<open>len([r for r in col_to_rows[c] if not (set(placements[r].squares) & used)])\<close>.
\<close>

definition slack :: "ctx \<Rightarrow> nat set \<Rightarrow> nat \<Rightarrow> py_error + nat" where
  "slack cx u c =
     bind_err (py_lookup (col_to_rows cx) c) (\<lambda>rows.
     bind_err (for_each (\<lambda>r acc. bind_err (py_index (placements cx) (int r)) (\<lambda>pl.
                          Inr (if set (squares pl) \<inter> u = {} then acc @ [r] else acc)))
                        rows []) (\<lambda>free.
       Inr (length free)))"

text \<open>
  \<open>min(xs, key=f)\<close>: the first element, in iteration order, whose key is minimal;
  ValueError when there is no element.
\<close>

fun min_from :: "('a \<Rightarrow> py_error + nat) \<Rightarrow> 'a list \<Rightarrow> 'a \<Rightarrow> nat \<Rightarrow> py_error + 'a" where
  "min_from key [] best kb = Inr best"
| "min_from key (y # ys) best kb =
     bind_err (key y) (\<lambda>k. if k < kb then min_from key ys y k else min_from key ys best kb)"

definition min_by :: "('a \<Rightarrow> py_error + nat) \<Rightarrow> 'a list \<Rightarrow> py_error + 'a" where
  "min_by key xs = (case xs of [] \<Rightarrow> Inl ValueError
                    | x # ys \<Rightarrow> bind_err (key x) (\<lambda>k. min_from key ys x k))"

text \<open>
  \<open>choose\<close> (here \<open>choose_col\<close>, the name \<open>choose\<close> being taken by the binomial
  coefficient) takes the minimum over the set \<open>universe - used\<close>. The order in which
  Python iterates a set is not fixed by the language, so it is a parameter \<open>iter\<close>:
  \<open>iter S\<close> lists the elements of \<open>S\<close> in the order of iteration.
\<close>

definition choose_col :: "(nat set \<Rightarrow> nat list) \<Rightarrow> ctx \<Rightarrow> state \<Rightarrow> py_error + nat" where
  "choose_col iter cx s = min_by (slack cx (used s)) (iter (universe cx - used s))"

definition row_cols :: "ctx \<Rightarrow> nat \<Rightarrow> py_error + nat set" where
  "row_cols cx row =
     bind_err (py_index (placements cx) (int row)) (\<lambda>pl.
       cols_of (board_cols cx) (piece_cols cx) pl)"

text \<open>
  \<open>search\<close> and its \<open>for row in col_to_rows[col]\<close> loop. The first argument bounds the
  depth of the recursion: a call of \<open>search\<close> needs one unit for itself, and the result
  is \<open>None\<close> when a call is reached with none left. Otherwise the result is the value
  returned, or the exception raised, together with the state left behind.
\<close>

fun search ::
    "nat \<Rightarrow> (nat set \<Rightarrow> nat list) \<Rightarrow> ctx \<Rightarrow> state \<Rightarrow> (py_error + bool \<times> state) option"
  and for_rows ::
    "nat \<Rightarrow> (nat set \<Rightarrow> nat list) \<Rightarrow> ctx \<Rightarrow> nat list \<Rightarrow> state \<Rightarrow> (py_error + bool \<times> state) option"
where
  "search 0 iter cx s = None"
| "search (Suc n) iter cx s =
     (if used s = universe cx then Some (Inr (True, s))
      else case choose_col iter cx s of
             Inl e \<Rightarrow> Some (Inl e)
           | Inr col \<Rightarrow>
               (case py_lookup (col_to_rows cx) col of
                  Inl e \<Rightarrow> Some (Inl e)
                | Inr rows \<Rightarrow> for_rows n iter cx rows s))"
| "for_rows n iter cx [] s = Some (Inr (False, s))"
| "for_rows n iter cx (row # rows) s =
     (let s1 = s\<lparr>tries := tries s + 1\<rparr> in
      case row_cols cx row of
        Inl e \<Rightarrow> Some (Inl e)
      | Inr rc \<Rightarrow>
          if rc \<inter> used s1 \<noteq> {} then for_rows n iter cx rows s1
          else
            (case search n iter cx (s1\<lparr>sol := sol s1 @ [row], used := used s1 \<union> rc\<rparr>) of
               None \<Rightarrow> None
             | Some (Inl e) \<Rightarrow> Some (Inl e)
             | Some (Inr (True, s2)) \<Rightarrow> Some (Inr (True, s2))
             | Some (Inr (False, s2)) \<Rightarrow>
                 for_rows n iter cx rows (s2\<lparr>sol := butlast (sol s2), used := used s2 - rc\<rparr>)))"

text \<open>\<open>[placements[r] for r in sol]\<close>\<close>

definition rows_to_placements :: "placement list \<Rightarrow> nat list \<Rightarrow> py_error + placement list" where
  "rows_to_placements pls rs =
     for_each (\<lambda>r acc. bind_err (py_index pls (int r)) (\<lambda>pl. Inr (acc @ [pl]))) rs []"

definition solve_exact_cover ::
  "nat \<Rightarrow> (nat set \<Rightarrow> nat list) \<Rightarrow> placement list \<Rightarrow> cell set
     \<Rightarrow> (py_error + placement list option \<times> nat) option" where
  "solve_exact_cover fuel iter pls ex =
     (case make_ctx pls ex of
        Inl e \<Rightarrow> Some (Inl e)
      | Inr cx \<Rightarrow>
          (case search fuel iter cx \<lparr>sol = [], used = {}, tries = 0\<rparr> of
             None \<Rightarrow> None
           | Some (Inl e) \<Rightarrow> Some (Inl e)
           | Some (Inr (found, s)) \<Rightarrow>
               if found
               then (case rows_to_placements pls (sol s) of
                       Inl e \<Rightarrow> Some (Inl e)
                     | Inr ps \<Rightarrow> Some (Inr (Some ps, tries s)))
               else Some (Inr (None, tries s))))"

section \<open>Notions used to state the properties\<close>

text \<open>
  The precondition of the solver on the excluded set: exactly two cells, both on the
  board.
\<close>

definition excluded_ok :: "cell set \<Rightarrow> bool" where
  "excluded_ok ex = (card ex = 2 \<and> (\<forall>rc \<in> ex. valid_cell rc))"

text \<open>The items of \<open>piece_cols\<close> written out, \<open>m\<close> being \<open>max(board_cols)\<close>.\<close>

definition piece_col_items :: "nat \<Rightarrow> (string \<times> nat) list" where
  "piece_col_items m = [(''A'', m + 1), (''B'', m + 2), (''C'', m + 3), (''D'', m + 4),
     (''E'', m + 5), (''F'', m + 6), (''G'', m + 7), (''H'', m + 8)]"

text \<open>The excluded set that \<open>main\<close> builds for July 6.\<close>

definition ex_july6 :: "cell set" where
  "ex_july6 = {month_cell 7, day_cell 6}"

text \<open>
  The set of used columns after the rows \<open>rs\<close> are pushed in order, starting from the
  used columns \<open>u\<close>, each row being free of conflict with what is used when it is pushed;
  \<open>None\<close> when a row conflicts or its columns cannot be computed.
\<close>

fun push_rows :: "ctx \<Rightarrow> nat list \<Rightarrow> nat set \<Rightarrow> nat set option" where
  "push_rows cx [] u = Some u"
| "push_rows cx (r # rs) u =
     (case row_cols cx r of
        Inl e \<Rightarrow> None
      | Inr rc \<Rightarrow> if rc \<inter> u = {} then push_rows cx rs (u \<union> rc) else None)"

text \<open>
  The enumeration that \<open>all_transforms\<close> runs through, without the test on \<open>seen\<close>:
  for \<open>flipped\<close> in \<open>(False, True)\<close> and, inside, \<open>rot\<close> in \<open>(0, 90, 180, 270)\<close>, the
  normalized coordinate set with its rotation and flip.
\<close>

definition cand_body ::
  "coordset \<Rightarrow> bool \<Rightarrow> int \<Rightarrow> transform list \<Rightarrow> py_error + transform list" where
  "cand_body cs0 fl rot acc =
     bind_err (rotate_times (nat (rot div 90)) cs0) (\<lambda>cs.
     bind_err (normalize cs) (\<lambda>ncs. Inr (acc @ [(ncs, rot, fl)])))"

definition cand_flip_body ::
  "coordset \<Rightarrow> bool \<Rightarrow> transform list \<Rightarrow> py_error + transform list" where
  "cand_flip_body base fl acc =
     bind_err (if fl then flip base else Inr base) (\<lambda>cs0.
       for_each (cand_body cs0 fl) [0, 90, 180, 270] acc)"

definition candidates :: "raw_piece \<Rightarrow> py_error + transform list" where
  "candidates g = for_each (cand_flip_body (grid_to_coords g)) [False, True] []"

text \<open>
  Order by first occurrence, in the words of the specification: an element is kept when
  no earlier element of the sequence has the same key (its first component).
\<close>

definition first_seen :: "('k \<times> 'v) list \<Rightarrow> ('k \<times> 'v) list" where
  "first_seen xs =
     map snd (filter (\<lambda>(i, x). fst x \<notin> fst ` set (take i xs)) (enumerate 0 xs))"

text \<open>
  How the pair \<open>(seen, out)\<close> of \<open>all_transforms\<close> stands to the candidates enumerated
  so far.
\<close>

definition seen_rel :: "coordset set \<times> transform list \<Rightarrow> transform list \<Rightarrow> bool" where
  "seen_rel st cands = (fst st = fst ` set cands \<and> snd st = first_seen cands)"

text \<open>
  The value of \<open>all_transforms\<close> on each piece of \<open>PIECES\<close>, written out
  (lemma \<open>all_transforms_PIECES\<close> below).
\<close>

definition PIECE_TRANSFORMS :: "(string \<times> transform list) list" where
  "PIECE_TRANSFORMS =
    [(''A'',
      [([(0, 0), (1, 0), (2, 0), (3, 0), (3, 1)], 0, False),
       ([(0, 0), (0, 1), (0, 2), (0, 3), (1, 0)], 90, False),
       ([(0, 0), (0, 1), (1, 1), (2, 1), (3, 1)], 180, False),
       ([(0, 3), (1, 0), (1, 1), (1, 2), (1, 3)], 270, False),
       ([(0, 1), (1, 1), (2, 1), (3, 0), (3, 1)], 0, True),
       ([(0, 0), (1, 0), (1, 1), (1, 2), (1, 3)], 90, True),
       ([(0, 0), (0, 1), (1, 0), (2, 0), (3, 0)], 180, True),
       ([(0, 0), (0, 1), (0, 2), (0, 3), (1, 3)], 270, True)]),
     (''B'',
      [([(0, 0), (1, 0), (2, 0), (2, 1), (3, 0)], 0, False),
       ([(0, 0), (0, 1), (0, 2), (0, 3), (1, 1)], 90, False),
       ([(0, 1), (1, 0), (1, 1), (2, 1), (3, 1)], 180, False),
       ([(0, 2), (1, 0), (1, 1), (1, 2), (1, 3)], 270, False),
       ([(0, 1), (1, 1), (2, 0), (2, 1), (3, 1)], 0, True),
       ([(0, 1), (1, 0), (1, 1), (1, 2), (1, 3)], 90, True),
       ([(0, 0), (1, 0), (1, 1), (2, 0), (3, 0)], 180, True),
       ([(0, 0), (0, 1), (0, 2), (0, 3), (1, 2)], 270, True)]),
     (''C'',
      [([(0, 0), (1, 0), (2, 0), (2, 1), (3, 1)], 0, False),
       ([(0, 1), (0, 2), (0, 3), (1, 0), (1, 1)], 90, False),
       ([(0, 0), (1, 0), (1, 1), (2, 1), (3, 1)], 180, False),
       ([(0, 2), (0, 3), (1, 0), (1, 1), (1, 2)], 270, False),
       ([(0, 1), (1, 1), (2, 0), (2, 1), (3, 0)], 0, True),
       ([(0, 0), (0, 1), (1, 1), (1, 2), (1, 3)], 90, True),
       ([(0, 1), (1, 0), (1, 1), (2, 0), (3, 0)], 180, True),
       ([(0, 0), (0, 1), (0, 2), (1, 2), (1, 3)], 270, True)]),
     (''D'',
      [([(0, 0), (0, 1), (1, 0), (2, 0), (2, 1)], 0, False),
       ([(0, 0), (0, 1), (0, 2), (1, 0), (1, 2)], 90, False),
       ([(0, 0), (0, 1), (1, 1), (2, 0), (2, 1)], 180, False),
       ([(0, 0), (0, 2), (1, 0), (1, 1), (1, 2)], 270, False)]),
     (''E'',
      [([(0, 0), (0, 1), (1, 0), (1, 1), (2, 0), (2, 1)], 0, False),
       ([(0, 0), (0, 1), (0, 2), (1, 0), (1, 1), (1, 2)], 90, False)]),
     (''F'',
      [([(0, 0), (1, 0), (1, 1), (2, 0), (2, 1)], 0, False),
       ([(0, 0), (0, 1), (0, 2), (1, 0), (1, 1)], 90, False),
       ([(0, 0), (0, 1), (1, 0), (1, 1), (2, 1)], 180, False),
       ([(0, 1), (0, 2), (1, 0), (1, 1), (1, 2)], 270, False),
       ([(0, 1), (1, 0), (1, 1), (2, 0), (2, 1)], 0, True),
       ([(0, 0), (0, 1), (1, 0), (1, 1), (1, 2)], 90, True),
       ([(0, 0), (0, 1), (1, 0), (1, 1), (2, 0)], 180, True),
       ([(0, 0), (0, 1), (0, 2), (1, 1), (1, 2)], 270, True)]),
     (''G'',
      [([(0, 0), (0, 1), (1, 1), (2, 1), (2, 2)], 0, False),
       ([(0, 2), (1, 0), (1, 1), (1, 2), (2, 0)], 90, False),
       ([(0, 1), (0, 2), (1, 1), (2, 0), (2, 1)], 0, True),
       ([(0, 0), (1, 0), (1, 1), (1, 2), (2, 2)], 90, True)]),
     (''H'',
      [([(0, 0), (1, 0), (2, 0), (2, 1), (2, 2)], 0, False),
       ([(0, 0), (0, 1), (0, 2), (1, 0), (2, 0)], 90, False),
       ([(0, 0), (0, 1), (0, 2), (1, 2), (2, 2)], 180, False),
       ([(0, 2), (1, 2), (2, 0), (2, 1), (2, 2)], 270, False)])]"

text \<open>
  What the placement loops rely on in an orientation: it has a cell, its cells are
  pairwise distinct, and no coordinate is negative.
\<close>

definition orientation_ok :: "coordset \<Rightarrow> bool" where
  "orientation_ok coords = (coords \<noteq> [] \<and> distinct coords
      \<and> (\<forall>rc \<in> set coords. 0 \<le> fst rc \<and> 0 \<le> snd rc))"

text \<open>
  The list that the loops of \<open>generate_placements\<close> build, as a comprehension:
  \<open>anchor_rows\<close> and \<open>anchor_cols\<close> are the two \<open>range\<close>s of anchors, \<open>fits\<close> is the
  test of the innermost loop on every cell, \<open>cell_idxs\<close> the column indices collected
  (a cell that passes the test is a key of \<open>CELL_TO_COL\<close>).
\<close>

definition fits :: "cell set \<Rightarrow> coordset \<Rightarrow> int \<Rightarrow> int \<Rightarrow> bool" where
  "fits ex coords tr tc =
     (\<forall>rc \<in> set coords. tc + snd rc < ROW_WIDTHS ! nat (tr + fst rc)
                           \<and> (tr + fst rc, tc + snd rc) \<notin> ex)"

definition cell_idxs :: "coordset \<Rightarrow> int \<Rightarrow> int \<Rightarrow> nat list" where
  "cell_idxs coords tr tc = map (\<lambda>rc. the (CELL_TO_COL (tr + fst rc, tc + snd rc))) coords"

definition placements_at :: "cell set \<Rightarrow> string \<Rightarrow> transform \<Rightarrow> int \<Rightarrow> int \<Rightarrow> placement list" where
  "placements_at ex name t tr tc = (case t of (coords, rot, fl) \<Rightarrow>
     if fits ex coords tr tc then [Placement name (cell_idxs coords tr tc) (tr, tc) rot fl] else [])"

definition anchor_cols :: "coordset \<Rightarrow> int \<Rightarrow> int list" where
  "anchor_cols coords tr = py_range (ROW_WIDTHS ! nat tr - Max (snd ` set coords))"

definition anchor_rows :: "coordset \<Rightarrow> int list" where
  "anchor_rows coords = py_range (int (length ROW_WIDTHS) - Max (fst ` set coords))"

definition placements_of :: "cell set \<Rightarrow> string \<Rightarrow> transform \<Rightarrow> placement list" where
  "placements_of ex name t =
     concat (map (\<lambda>tr. concat (map (placements_at ex name t tr) (anchor_cols (fst t) tr)))
                 (anchor_rows (fst t)))"

definition generated :: "cell set \<Rightarrow> placement list" where
  "generated ex =
     concat (map (\<lambda>nt. concat (map (placements_of ex (fst nt)) (snd nt))) PIECE_TRANSFORMS)"

text \<open>The columns of a row, empty when they cannot be computed.\<close>

definition rc_of :: "ctx \<Rightarrow> nat \<Rightarrow> nat set" where
  "rc_of cx r = (case row_cols cx r of Inr rc \<Rightarrow> rc | Inl e \<Rightarrow> {})"

text \<open>
  The list comprehension in the key of \<open>choose\<close>:
  \<open>[r for r in col_to_rows[c] if not (set(placements[r].squares) & used)]\<close>,
  for a column \<open>c\<close> that is a key of \<open>col_to_rows\<close> and row indices within \<open>placements\<close>.
\<close>

definition free_rows :: "ctx \<Rightarrow> nat set \<Rightarrow> nat \<Rightarrow> nat list" where
  "free_rows cx u c =
     filter (\<lambda>r. set (squares (placements cx ! r)) \<inter> u = {})
            (case col_to_rows cx c of Some rows \<Rightarrow> rows | None \<Rightarrow> [])"

text \<open>
  The candidate rows of a column that do not conflict with \<open>used\<close> in the sense of
  \<open>search\<close>: none of the row's columns, board columns and piece column alike, is used.
\<close>

definition unconflicted_rows :: "ctx \<Rightarrow> nat set \<Rightarrow> nat \<Rightarrow> nat list" where
  "unconflicted_rows cx u c =
     filter (\<lambda>r. rc_of cx r \<inter> u = {})
            (case col_to_rows cx c of Some rows \<Rightarrow> rows | None \<Rightarrow> [])"

text \<open>
  Eight placements among those generated for July 6 that tile the board, one per piece,
  and a second list in which the placement of H is moved one row down and two further
  placements of A are added.
\<close>

definition tiling_july6 :: "placement list" where
  "tiling_july6 =
    [Placement ''A'' [0, 1, 7, 13, 20] (0, 0) 180 False,
     Placement ''B'' [18, 24, 25, 32, 39] (2, 5) 180 False,
     Placement ''C'' [16, 23, 30, 31, 38] (2, 4) 0 False,
     Placement ''D'' [2, 3, 8, 14, 15] (0, 2) 0 False,
     Placement ''E'' [33, 34, 35, 40, 41, 42] (5, 0) 90 False,
     Placement ''F'' [4, 5, 9, 10, 11] (0, 3) 270 False,
     Placement ''G'' [21, 22, 29, 36, 37] (3, 2) 0 False,
     Placement ''H'' [12, 19, 26, 27, 28] (2, 0) 0 False]"

definition spare_july6 :: "placement list" where
  "spare_july6 =
    [Placement ''A'' [0, 1, 7, 13, 20] (0, 0) 180 False,
     Placement ''B'' [18, 24, 25, 32, 39] (2, 5) 180 False,
     Placement ''C'' [16, 23, 30, 31, 38] (2, 4) 0 False,
     Placement ''D'' [2, 3, 8, 14, 15] (0, 2) 0 False,
     Placement ''E'' [33, 34, 35, 40, 41, 42] (5, 0) 90 False,
     Placement ''F'' [4, 5, 9, 10, 11] (0, 3) 270 False,
     Placement ''G'' [21, 22, 29, 36, 37] (3, 2) 0 False,
     Placement ''H'' [19, 26, 33, 34, 35] (3, 0) 0 False,
     Placement ''A'' [12, 19, 26, 33, 34] (2, 0) 0 False,
     Placement ''A'' [27, 28, 29, 30, 34] (4, 1) 90 False]"

text \<open>The columns of the universe for July 6, in increasing order.\<close>

definition cols_july6 :: "nat list" where
  "cols_july6 = [0, 1, 2, 3, 4, 5] @ [7, 8, 9, 10, 11, 12, 13, 14, 15, 16]
                 @ [18, 19, 20, 21, 22, 23, 24, 25, 26, 27, 28, 29, 30, 31, 32]
                 @ [33, 34, 35, 36, 37, 38, 39, 40, 41, 42]
                 @ [43, 44, 45, 46, 47, 48, 49, 50]"

text \<open>
  The geometry of an orientation, in the words of the specification. \<open>shift_by\<close> translates
  a set of cells; \<open>origin_shift\<close> translates it so that its least row and its least column
  are 0 (the normalized coordinate set). \<open>quarter_turn\<close> sends the cell in row \<open>r\<close>, column
  \<open>c\<close> to row \<open>c\<close>, column \<open>-r\<close>, and \<open>mirror\<close> sends it to row \<open>r\<close>, column \<open>-c\<close>.
  \<open>oriented S rot fl\<close> is the shape \<open>S\<close>, mirrored when \<open>fl\<close>, then turned \<open>rot // 90\<close> quarter
  turns, then normalized.
\<close>

definition shift_by :: "int \<Rightarrow> int \<Rightarrow> cell set \<Rightarrow> cell set" where
  "shift_by a b S = (\<lambda>rc. (fst rc + a, snd rc + b)) ` S"

definition origin_shift :: "cell set \<Rightarrow> cell set" where
  "origin_shift S = shift_by (- Min (fst ` S)) (- Min (snd ` S)) S"

definition quarter_turn :: "cell \<Rightarrow> cell" where
  "quarter_turn rc = (snd rc, - fst rc)"

definition mirror :: "cell \<Rightarrow> cell" where
  "mirror rc = (fst rc, - snd rc)"

definition oriented :: "cell set \<Rightarrow> int \<Rightarrow> bool \<Rightarrow> cell set" where
  "oriented S rot fl =
     origin_shift ((quarter_turn ^^ nat (rot div 90)) ` (if fl then mirror ` S else S))"

section \<open>Properties of the board geometry\<close>

lemma BOARD_CELLS_eq:
  "BOARD_CELLS =
    [(0,0),(0,1),(0,2),(0,3),(0,4),(0,5),
     (1,0),(1,1),(1,2),(1,3),(1,4),(1,5),
     (2,0),(2,1),(2,2),(2,3),(2,4),(2,5),(2,6),
     (3,0),(3,1),(3,2),(3,3),(3,4),(3,5),(3,6),
     (4,0),(4,1),(4,2),(4,3),(4,4),(4,5),(4,6),
     (5,0),(5,1),(5,2),(5,3),(5,4),(5,5),(5,6),
     (6,0),(6,1),(6,2)]"
  by code_simp

lemma length_BOARD_CELLS: "length BOARD_CELLS = 43"
  by (simp add: BOARD_CELLS_eq)

lemma distinct_BOARD_CELLS: "distinct BOARD_CELLS"
  by (simp add: BOARD_CELLS_eq)

lemma CELL_TO_COL_all: "list_all (\<lambda>i. CELL_TO_COL (BOARD_CELLS ! i) = Some i) [0..<43]"
  by code_simp

lemma CELL_TO_COL_nth: "i < 43 \<Longrightarrow> CELL_TO_COL (BOARD_CELLS ! i) = Some i"
  using CELL_TO_COL_all by (simp add: list_all_iff)

lemma dom_CELL_TO_COL: "dom CELL_TO_COL = set BOARD_CELLS"
  unfolding BOARD_CELLS_eq
  by (simp add: CELL_TO_COL_def board_tables_def ROW_WIDTHS_def py_range_def board_add_def
      enumerate_eq_zip upto.simps insert_commute)

lemma int_below_7:
  "0 \<le> (r::int) \<Longrightarrow> r < 7 \<Longrightarrow> r = 0 \<or> r = 1 \<or> r = 2 \<or> r = 3 \<or> r = 4 \<or> r = 5 \<or> r = 6"
  by presburger

lemma valid_cell_iff: "valid_cell rc \<longleftrightarrow> rc \<in> set BOARD_CELLS"
proof (cases rc)
  case (Pair r c)
  show ?thesis
  proof
    assume "valid_cell rc"
    then have r: "0 \<le> r" "r < 7" and c: "0 \<le> c" "c < ROW_WIDTHS ! nat r"
      by (simp_all add: valid_cell_def Pair ROW_WIDTHS_def)
    from int_below_7[OF r] c show "rc \<in> set BOARD_CELLS"
      unfolding BOARD_CELLS_eq Pair
      apply (elim disjE)
            apply (simp_all add: ROW_WIDTHS_def)
            apply presburger+
      done
  next
    assume "rc \<in> set BOARD_CELLS"
    then show "valid_cell rc"
      unfolding BOARD_CELLS_eq by (auto simp: valid_cell_def ROW_WIDTHS_def)
  qed
qed

lemma CELL_TO_COL_valid:
  assumes "valid_cell rc"
  shows "\<exists>i < 43. CELL_TO_COL rc = Some i \<and> BOARD_CELLS ! i = rc"
proof -
  from assms have "rc \<in> set BOARD_CELLS" by (simp add: valid_cell_iff)
  then obtain i where "i < 43" "BOARD_CELLS ! i = rc"
    by (auto simp: in_set_conv_nth length_BOARD_CELLS)
  then show ?thesis using CELL_TO_COL_nth[of i] by auto
qed

lemma CELL_TO_COL_Some:
  assumes "CELL_TO_COL rc = Some i"
  shows "valid_cell rc \<and> i < 43 \<and> BOARD_CELLS ! i = rc"
proof -
  from assms have "rc \<in> dom CELL_TO_COL" by auto
  then have v: "valid_cell rc" by (simp add: dom_CELL_TO_COL valid_cell_iff)
  from CELL_TO_COL_valid[OF v] assms v show ?thesis by auto
qed

text \<open>
  Claim C9. The cell-to-index and index-to-cell tables are mutually inverse: for every
  valid cell \<open>rc\<close> the lookup \<open>BOARD_CELLS[CELL_TO_COL[rc]]\<close> returns \<open>rc\<close>; there are 43
  indices, and for every index \<open>0 \<le> i < 43\<close> the lookup \<open>CELL_TO_COL[BOARD_CELLS[i]]\<close>
  returns \<open>i\<close>; and \<open>CELL_TO_COL\<close> has a key exactly for the valid cells.
\<close>

theorem board_tables_inverse:
  "(\<forall>rc. valid_cell rc \<longrightarrow>
      bind_err (py_lookup CELL_TO_COL rc) (\<lambda>i. py_index BOARD_CELLS (int i)) = Inr rc)
   \<and> length BOARD_CELLS = 43
   \<and> (\<forall>i. 0 \<le> i \<and> i < 43 \<longrightarrow>
        bind_err (py_index BOARD_CELLS i) (py_lookup CELL_TO_COL) = Inr (nat i))
   \<and> (\<forall>rc. (rc \<in> dom CELL_TO_COL) = valid_cell rc)"
proof (intro conjI allI impI)
  fix rc assume "valid_cell rc"
  from CELL_TO_COL_valid[OF this]
  show "bind_err (py_lookup CELL_TO_COL rc) (\<lambda>i. py_index BOARD_CELLS (int i)) = Inr rc"
    by (auto simp: bind_err_def py_lookup_def py_index_def length_BOARD_CELLS)
next
  show "length BOARD_CELLS = 43" by (rule length_BOARD_CELLS)
next
  fix i :: int assume i: "0 \<le> i \<and> i < 43"
  then have "nat i < 43" by linarith
  from CELL_TO_COL_nth[OF this] i
  show "bind_err (py_index BOARD_CELLS i) (py_lookup CELL_TO_COL) = Inr (nat i)"
    by (simp add: bind_err_def py_lookup_def py_index_def length_BOARD_CELLS)
next
  fix rc show "(rc \<in> dom CELL_TO_COL) = valid_cell rc"
    by (simp add: dom_CELL_TO_COL valid_cell_iff)
qed

theorem board_tables_inverse_witness:
  "valid_cell (2, 3)
   \<and> bind_err (py_lookup CELL_TO_COL (2, 3)) (\<lambda>i. py_index BOARD_CELLS (int i)) = Inr (2, 3)
   \<and> bind_err (py_index BOARD_CELLS 15) (py_lookup CELL_TO_COL) = Inr 15
   \<and> (6, 3) \<notin> dom CELL_TO_COL"
proof -
  have v: "valid_cell (2, 3)" and n: "\<not> valid_cell (6, 3)"
    by (simp_all add: valid_cell_def ROW_WIDTHS_def)
  have i: "(0::int) \<le> 15 \<and> (15::int) < 43" by simp
  from board_tables_inverse v n i show ?thesis
    by (metis nat_numeral)
qed

text \<open>
  Claim C10. For every month \<open>1 \<le> m \<le> 12\<close> and day \<open>1 \<le> d \<le> 31\<close>, \<open>month_cell m\<close>
  and \<open>day_cell d\<close> are valid board cells, the month cell lies in row 0 or 1 and the day
  cell in rows 2 to 6, so the two cells are distinct.
\<close>

theorem month_day_cells_valid_distinct:
  assumes "1 \<le> m" "m \<le> 12" "1 \<le> d" "d \<le> 31"
  shows "valid_cell (month_cell m) \<and> valid_cell (day_cell d)
         \<and> fst (month_cell m) \<in> {0, 1} \<and> fst (day_cell d) \<in> {2, 3, 4, 5, 6}
         \<and> month_cell m \<noteq> day_cell d"
  using assms by (auto simp: month_cell_def day_cell_def valid_cell_def ROW_WIDTHS_def)

theorem month_day_cells_valid_distinct_witness:
  "valid_cell (month_cell 7) \<and> valid_cell (day_cell 6)
   \<and> month_cell 7 = (1, 0) \<and> day_cell 6 = (2, 5) \<and> month_cell 7 \<noteq> day_cell 6"
  using month_day_cells_valid_distinct[of 7 6]
  by (simp add: month_cell_def day_cell_def)

section \<open>Loops and exceptions\<close>

lemma bind_err_simps [simp]:
  "bind_err (Inr x) f = f x" "bind_err (Inl e) f = Inl e"
  by (simp_all add: bind_err_def)

lemma bind_err_eq_Inr: "bind_err m f = Inr y \<longleftrightarrow> (\<exists>x. m = Inr x \<and> f x = Inr y)"
  by (cases m) simp_all

lemma for_each_append:
  "for_each body (xs @ ys) s = bind_err (for_each body xs s) (for_each body ys)"
proof (induction xs arbitrary: s)
  case Nil show ?case by simp
next
  case (Cons x xs)
  show ?case by (cases "body x s") (simp_all add: Cons.IH)
qed

lemma for_each_inv:
  assumes "P s"
    and "\<And>x s. x \<in> set xs \<Longrightarrow> P s \<Longrightarrow> \<exists>s'. body x s = Inr s' \<and> P s'"
  shows "\<exists>s'. for_each body xs s = Inr s' \<and> P s'"
  using assms
proof (induction xs arbitrary: s)
  case Nil then show ?case by simp
next
  case (Cons x xs)
  from Cons.prems obtain s1 where s1: "body x s = Inr s1" "P s1" by fastforce
  from Cons.IH[OF s1(2)] Cons.prems(2) s1(1) show ?case by simp
qed

section \<open>The universe of columns\<close>

lemma board_cols_loop:
  assumes "set cells \<subseteq> dom CELL_TO_COL"
  shows "for_each (\<lambda>xy acc. if xy \<notin> ex
                          then bind_err (py_lookup CELL_TO_COL xy) (\<lambda>i. Inr (insert i acc))
                          else Inr acc) cells acc
         = Inr (acc \<union> (\<lambda>xy. the (CELL_TO_COL xy)) ` (set cells - ex))"
  using assms
proof (induction cells arbitrary: acc)
  case Nil show ?case by simp
next
  case (Cons xy cells)
  then obtain i where i: "CELL_TO_COL xy = Some i" by auto
  from Cons.prems have sub: "set cells \<subseteq> dom CELL_TO_COL" by simp
  show ?case
    using i by (simp add: Cons.IH[OF sub] py_lookup_def insert_Diff_if)
qed

lemma make_board_cols_eq: "make_board_cols ex = Inr {i. i < 43 \<and> BOARD_CELLS ! i \<notin> ex}"
proof -
  have "(\<lambda>xy. the (CELL_TO_COL xy)) ` (set BOARD_CELLS - ex) = {i. i < 43 \<and> BOARD_CELLS ! i \<notin> ex}"
    (is "?L = ?R")
  proof
    show "?L \<subseteq> ?R"
    proof
      fix i assume "i \<in> ?L"
      then obtain xy where xy: "xy \<in> set BOARD_CELLS" "xy \<notin> ex" "i = the (CELL_TO_COL xy)" by auto
      then obtain j where j: "j < 43" "BOARD_CELLS ! j = xy"
        by (auto simp: in_set_conv_nth length_BOARD_CELLS)
      with CELL_TO_COL_nth[of j] xy show "i \<in> ?R" by simp
    qed
    show "?R \<subseteq> ?L"
    proof
      fix i assume "i \<in> ?R"
      then have i: "i < 43" "BOARD_CELLS ! i \<notin> ex" by auto
      then have "BOARD_CELLS ! i \<in> set BOARD_CELLS - ex" by (simp add: length_BOARD_CELLS)
      moreover have "the (CELL_TO_COL (BOARD_CELLS ! i)) = i" using CELL_TO_COL_nth[OF i(1)] by simp
      ultimately show "i \<in> ?L" by force
    qed
  qed
  then show ?thesis
    unfolding make_board_cols_def
    by (simp add: board_cols_loop[OF eq_refl[OF dom_CELL_TO_COL[symmetric]]])
qed

lemma sorted_names: "sort (map fst PIECES) = [''A'', ''B'', ''C'', ''D'', ''E'', ''F'', ''G'', ''H'']"
  by code_simp

lemma make_piece_cols_eq:
  assumes "bc \<noteq> {}"
  shows "make_piece_cols bc = Inr (piece_col_items (Max bc))"
  using assms
  by (simp add: make_piece_cols_def sorted_names py_max_set_def enumerate_eq_zip upt_rec_numeral
      piece_col_items_def)

lemma make_piece_cols_empty: "make_piece_cols {} = Inl ValueError"
  by (simp add: make_piece_cols_def sorted_names py_max_set_def enumerate_eq_zip upt_rec_numeral)



lemma finite_bcols: "finite {i. i < (43::nat) \<and> P i}"
  by simp

lemma make_ctx_Inr:
  assumes "make_ctx pls ex = Inr cx"
  defines "bc \<equiv> {i. i < 43 \<and> BOARD_CELLS ! i \<notin> ex}"
  shows "bc \<noteq> {}"
    and "placements cx = pls"
    and "board_cols cx = bc"
    and "piece_cols cx = map_of (piece_col_items (Max bc))"
    and "universe cx = bc \<union> snd ` set (piece_col_items (Max bc))"
    and "for_each (index_row bc (map_of (piece_col_items (Max bc)))) (enumerate 0 pls)
           (\<lambda>c. if c \<in> bc \<union> snd ` set (piece_col_items (Max bc)) then Some [] else None)
         = Inr (col_to_rows cx)"
proof -
  show ne: "bc \<noteq> {}"
  proof
    assume e: "bc = {}"
    from assms(1) have "bind_err (make_piece_cols bc) (\<lambda>pcs.
       let pc = map_of pcs;
           u = bc \<union> set (map snd pcs)
       in bind_err (for_each (index_row bc pc) (enumerate 0 pls)
                             (\<lambda>c. if c \<in> u then Some [] else None)) (\<lambda>c2r.
            Inr \<lparr>placements = pls, board_cols = bc, piece_cols = pc,
                  universe = u, col_to_rows = c2r\<rparr>)) = Inr cx"
      unfolding make_ctx_def make_board_cols_eq bc_def[symmetric] by simp
    then show False unfolding e by (simp add: make_piece_cols_empty)
  qed
  from assms(1) ne
  have "bind_err (for_each (index_row bc (map_of (piece_col_items (Max bc)))) (enumerate 0 pls)
           (\<lambda>c. if c \<in> bc \<union> snd ` set (piece_col_items (Max bc)) then Some [] else None))
          (\<lambda>c2r. Inr \<lparr>placements = pls, board_cols = bc, piece_cols = map_of (piece_col_items (Max bc)),
                  universe = bc \<union> snd ` set (piece_col_items (Max bc)), col_to_rows = c2r\<rparr>) = Inr cx"
    unfolding make_ctx_def make_board_cols_eq bc_def[symmetric]
    by (simp add: make_piece_cols_eq Let_def)
  then obtain c2r where c2r: "for_each (index_row bc (map_of (piece_col_items (Max bc)))) (enumerate 0 pls)
           (\<lambda>c. if c \<in> bc \<union> snd ` set (piece_col_items (Max bc)) then Some [] else None) = Inr c2r"
    and cx: "cx = \<lparr>placements = pls, board_cols = bc, piece_cols = map_of (piece_col_items (Max bc)),
                  universe = bc \<union> snd ` set (piece_col_items (Max bc)), col_to_rows = c2r\<rparr>"
    by (auto simp: bind_err_eq_Inr)
  from cx show "placements cx = pls" "board_cols cx = bc"
    "piece_cols cx = map_of (piece_col_items (Max bc))"
    "universe cx = bc \<union> snd ` set (piece_col_items (Max bc))" by simp_all
  from c2r cx show "for_each (index_row bc (map_of (piece_col_items (Max bc)))) (enumerate 0 pls)
           (\<lambda>c. if c \<in> bc \<union> snd ` set (piece_col_items (Max bc)) then Some [] else None)
         = Inr (col_to_rows cx)" by simp
qed

lemma piece_col_values: "snd ` set (piece_col_items m) = {m + 1 .. m + 8}"
  by (auto simp: piece_col_items_def)

lemma piece_col_keys: "map fst (piece_col_items m) = map fst PIECES"
  by (simp add: piece_col_items_def PIECES_def)

lemma ran_piece_cols: "ran (map_of (piece_col_items m)) = {m + 1 .. m + 8}"
proof -
  have "distinct (map fst (piece_col_items m))" by (simp add: piece_col_items_def)
  from ran_distinct[OF this] show ?thesis by (simp add: piece_col_values)
qed

lemma card_bcols:
  assumes "excluded_ok ex"
  shows "card {i. i < 43 \<and> BOARD_CELLS ! i \<notin> ex} = 41"
proof -
  from assms have fin: "finite ex" and c2: "card ex = 2" and sub: "ex \<subseteq> set BOARD_CELLS"
    by (auto simp: excluded_ok_def valid_cell_iff intro: card_ge_0_finite)
  have "{i. i < 43 \<and> BOARD_CELLS ! i \<notin> ex} = {0..<43} - {i. i < 43 \<and> BOARD_CELLS ! i \<in> ex}"
    by auto
  moreover have "card {i. i < 43 \<and> BOARD_CELLS ! i \<in> ex} = card ex"
  proof (rule bij_betw_same_card[of "\<lambda>i. BOARD_CELLS ! i"])
    show "bij_betw (\<lambda>i. BOARD_CELLS ! i) {i. i < 43 \<and> BOARD_CELLS ! i \<in> ex} ex"
      unfolding bij_betw_def
    proof
      show "inj_on ((!) BOARD_CELLS) {i. i < 43 \<and> BOARD_CELLS ! i \<in> ex}"
        using distinct_BOARD_CELLS
        by (auto simp: inj_on_def nth_eq_iff_index_eq length_BOARD_CELLS)
      show "(!) BOARD_CELLS ` {i. i < 43 \<and> BOARD_CELLS ! i \<in> ex} = ex"
      proof
        show "(!) BOARD_CELLS ` {i. i < 43 \<and> BOARD_CELLS ! i \<in> ex} \<subseteq> ex" by auto
        show "ex \<subseteq> (!) BOARD_CELLS ` {i. i < 43 \<and> BOARD_CELLS ! i \<in> ex}"
        proof
          fix rc assume rc: "rc \<in> ex"
          with sub have "rc \<in> set BOARD_CELLS" by auto
          then obtain i where "i < 43" "BOARD_CELLS ! i = rc"
            by (auto simp: in_set_conv_nth length_BOARD_CELLS)
          with rc show "rc \<in> (!) BOARD_CELLS ` {i. i < 43 \<and> BOARD_CELLS ! i \<in> ex}"
            by (intro image_eqI[of _ _ i]) simp_all
        qed
      qed
    qed
  qed
  moreover have "{i. i < 43 \<and> BOARD_CELLS ! i \<in> ex} \<subseteq> {0..<43}" by auto
  ultimately show ?thesis using c2
    by (simp add: card_Diff_subset)
qed

lemma bcols_valid:
  "{i. i < 43 \<and> BOARD_CELLS ! i \<notin> ex} = {i. \<exists>rc. valid_cell rc \<and> rc \<notin> ex \<and> CELL_TO_COL rc = Some i}"
proof -
  have "\<And>i. (i < 43 \<and> BOARD_CELLS ! i \<notin> ex) = (\<exists>rc. valid_cell rc \<and> rc \<notin> ex \<and> CELL_TO_COL rc = Some i)"
  proof
    fix i assume a: "i < 43 \<and> BOARD_CELLS ! i \<notin> ex"
    then have "CELL_TO_COL (BOARD_CELLS ! i) = Some i" by (simp add: CELL_TO_COL_nth)
    with a CELL_TO_COL_Some[OF this]
    show "\<exists>rc. valid_cell rc \<and> rc \<notin> ex \<and> CELL_TO_COL rc = Some i" by blast
  next
    fix i assume "\<exists>rc. valid_cell rc \<and> rc \<notin> ex \<and> CELL_TO_COL rc = Some i"
    then obtain rc where rc: "rc \<notin> ex" "CELL_TO_COL rc = Some i" by blast
    from CELL_TO_COL_Some[OF rc(2)] rc(1) show "i < 43 \<and> BOARD_CELLS ! i \<notin> ex" by simp
  qed
  then show ?thesis by simp
qed

lemma Max_bcols_less:
  assumes "c \<in> {i. i < (43::nat) \<and> P i}"
  shows "c \<le> Max {i. i < 43 \<and> P i}"
  using assms by (intro Max_ge) simp_all

text \<open>
  Claim C8, as amended. For every excluded set of exactly two distinct valid cells, the
  universe built by \<open>solve_exact_cover\<close> is the set of the columns of the non-excluded
  board cells (43 - 2 of them) together with the 8 piece columns; it has 43 - 2 + 8 = 49
  elements. The piece columns are the 8 integers that follow the largest column of a
  non-excluded cell, so they are none of the columns of the non-excluded cells. They need
  not differ from the column of an excluded cell.
\<close>

theorem universe_columns:
  assumes "excluded_ok ex" and "make_ctx pls ex = Inr cx"
  shows "board_cols cx = {i. \<exists>rc. valid_cell rc \<and> rc \<notin> ex \<and> CELL_TO_COL rc = Some i}
       \<and> card (board_cols cx) = 43 - 2
       \<and> dom (piece_cols cx) = fst ` set PIECES
       \<and> card (ran (piece_cols cx)) = 8
       \<and> ran (piece_cols cx) = {Max (board_cols cx) + 1 .. Max (board_cols cx) + 8}
       \<and> ran (piece_cols cx) \<inter> board_cols cx = {}
       \<and> universe cx = board_cols cx \<union> ran (piece_cols cx)
       \<and> card (universe cx) = 43 - 2 + 8"
proof -
  let ?bc = "{i. i < 43 \<and> BOARD_CELLS ! i \<notin> ex}"
  note f = make_ctx_Inr[OF assms(2)]
  have bc: "board_cols cx = ?bc" by (rule f(3))
  have cbc: "card ?bc = 41" by (rule card_bcols[OF assms(1)])
  have ran: "ran (piece_cols cx) = {Max ?bc + 1 .. Max ?bc + 8}"
    by (simp add: f(4) ran_piece_cols)
  have disj: "{Max ?bc + 1 .. Max ?bc + 8} \<inter> ?bc = {}"
  proof -
    have "\<And>c. c \<in> ?bc \<Longrightarrow> c \<le> Max ?bc" by (rule Max_bcols_less)
    then show ?thesis by fastforce
  qed
  have u: "universe cx = ?bc \<union> {Max ?bc + 1 .. Max ?bc + 8}"
    by (simp add: f(5) piece_col_values)
  have "card (?bc \<union> {Max ?bc + 1 .. Max ?bc + 8}) = card ?bc + card {Max ?bc + 1 .. Max ?bc + 8}"
    using disj by (intro card_Un_disjoint) (simp_all add: Int_commute)
  then have cu: "card (universe cx) = 49" by (simp add: u cbc)
  have "set (map fst (piece_col_items (Max ?bc))) = set (map fst PIECES)"
    by (simp only: piece_col_keys)
  then have d: "dom (piece_cols cx) = fst ` set PIECES"
    by (simp add: f(4) dom_map_of_conv_image_fst)
  show ?thesis
    using bc cbc ran disj u cu d by (simp add: bcols_valid)
qed


lemma cols_of_Inr:
  "cols_of bc pc pl = Inr cols \<longleftrightarrow>
     (\<exists>k. pc (piece pl) = Some k \<and> cols = (set (squares pl) \<inter> bc) \<union> {k})"
  by (auto simp: cols_of_def py_lookup_def split: option.splits)

lemma index_row_Inr:
  assumes "index_row bc pc (idx, pl) m = Inr m'"
  shows "\<exists>cols. cols_of bc pc pl = Inr cols \<and> cols \<subseteq> dom m
           \<and> m' = (\<lambda>c. if c \<in> cols then map_option (\<lambda>rows. rows @ [idx]) (m c) else m c)"
  using assms
  by (cases "cols_of bc pc pl") (auto simp: index_row_def split: if_splits)

lemma index_rows_char:
  assumes "for_each (index_row bc pc) (enumerate n pls) m = Inr m'"
  shows "dom m' = dom m
    \<and> (\<forall>pl \<in> set pls. piece pl \<in> dom pc)
    \<and> (\<forall>c rows. m c = Some rows \<longrightarrow>
          m' c = Some (rows @ filter (\<lambda>idx. \<exists>cols. cols_of bc pc (pls ! (idx - n)) = Inr cols \<and> c \<in> cols)
                                      [n..<n + length pls]))"
  using assms
proof (induction pls arbitrary: n m)
  case Nil then show ?case by simp
next
  case (Cons pl pls)
  from Cons.prems obtain m1 where m1: "index_row bc pc (n, pl) m = Inr m1"
    and rest: "for_each (index_row bc pc) (enumerate (Suc n) pls) m1 = Inr m'"
    by (auto simp: bind_err_eq_Inr)
  from index_row_Inr[OF m1] obtain cols where cols: "cols_of bc pc pl = Inr cols" "cols \<subseteq> dom m"
    and m1_eq: "m1 = (\<lambda>c. if c \<in> cols then map_option (\<lambda>rows. rows @ [n]) (m c) else m c)"
    by blast
  have dom1: "dom m1 = dom m" by (auto simp: m1_eq dom_def)
  note IH = Cons.IH[OF rest]
  have "dom m' = dom m" using IH dom1 by simp
  moreover have "\<forall>p \<in> set (pl # pls). piece p \<in> dom pc"
    using IH cols(1) by (auto simp: cols_of_Inr)
  moreover have "\<forall>c rows. m c = Some rows \<longrightarrow>
          m' c = Some (rows @ filter (\<lambda>idx. \<exists>cols. cols_of bc pc ((pl # pls) ! (idx - n)) = Inr cols \<and> c \<in> cols)
                                      [n..<n + length (pl # pls)])"
  proof (intro allI impI)
    fix c rows assume mc: "m c = Some rows"
    let ?hit = "\<lambda>ps k idx. \<exists>cols. cols_of bc pc (ps ! (idx - k)) = Inr cols \<and> c \<in> cols"
    have m1c: "m1 c = Some (rows @ (if c \<in> cols then [n] else []))"
      by (simp add: m1_eq mc)
    from IH m1c have m'c: "m' c = Some ((rows @ (if c \<in> cols then [n] else []))
                             @ filter (?hit pls (Suc n)) [Suc n..<Suc n + length pls])"
      by blast
    have tail: "filter (?hit (pl # pls) n) [Suc n..<Suc n + length pls]
                = filter (?hit pls (Suc n)) [Suc n..<Suc n + length pls]"
    proof (rule filter_cong)
      fix idx assume "idx \<in> set [Suc n..<Suc n + length pls]"
      then have "idx - n = Suc (idx - Suc n)" by auto
      then show "?hit (pl # pls) n idx = ?hit pls (Suc n) idx" by simp
    qed simp
    have "[n..<n + length (pl # pls)] = n # [Suc n..<Suc n + length pls]"
      by (subst upt_rec) simp
    then have "filter (?hit (pl # pls) n) [n..<n + length (pl # pls)]
               = (if c \<in> cols then [n] else []) @ filter (?hit pls (Suc n)) [Suc n..<Suc n + length pls]"
      using cols(1) tail by simp
    with m'c show "m' c = Some (rows @ filter (?hit (pl # pls) n) [n..<n + length (pl # pls)])"
      by simp
  qed
  ultimately show ?case by blast
qed

lemma index_rows_returns:
  assumes "\<forall>pl \<in> set pls. \<exists>k. pc (piece pl) = Some k \<and> k \<in> dom m"
    and "bc \<subseteq> dom m"
  shows "\<exists>m'. for_each (index_row bc pc) (enumerate n pls) m = Inr m'"
proof -
  have "\<exists>m'. for_each (index_row bc pc) (enumerate n pls) m = Inr m' \<and> dom m' = dom m"
  proof (rule for_each_inv[where P = "\<lambda>m'. dom m' = dom m"])
    show "dom m = dom m" by simp
  next
    fix x and m1 :: "nat \<rightharpoonup> nat list"
    assume x: "x \<in> set (enumerate n pls)" and d: "dom m1 = dom m"
    obtain idx pl where xe: "x = (idx, pl)" by (cases x)
    with x have "pl \<in> set pls" by (auto simp: in_set_enumerate_eq)
    with assms(1) obtain k where k: "pc (piece pl) = Some k" "k \<in> dom m" by blast
    let ?cols = "(set (squares pl) \<inter> bc) \<union> {k}"
    have c: "cols_of bc pc pl = Inr ?cols" using k by (simp add: cols_of_Inr)
    have sub: "\<forall>c \<in> ?cols. m1 c \<noteq> None" using assms(2) k(2) d by auto
    let ?m' = "\<lambda>c. if c \<in> ?cols then map_option (\<lambda>rows. rows @ [idx]) (m1 c) else m1 c"
    have "index_row bc pc x m1 = Inr ?m'"
      unfolding xe index_row_def using c sub by simp
    moreover have "dom ?m' = dom m" using d by (auto simp: dom_def)
    ultimately show "\<exists>s'. index_row bc pc x m1 = Inr s' \<and> dom s' = dom m" by blast
  qed
  then show ?thesis by blast
qed

lemma make_ctx_returns:
  assumes "{i. i < 43 \<and> BOARD_CELLS ! i \<notin> ex} \<noteq> {}"
    and "\<forall>pl \<in> set pls. piece pl \<in> fst ` set PIECES"
  shows "\<exists>cx. make_ctx pls ex = Inr cx"
proof -
  let ?bc = "{i. i < 43 \<and> BOARD_CELLS ! i \<notin> ex}"
  let ?items = "piece_col_items (Max ?bc)"
  let ?u = "?bc \<union> set (map snd ?items)"
  let ?m0 = "\<lambda>c. if c \<in> ?u then Some ([]::nat list) else None"
  have dom0: "dom ?m0 = ?u" by (auto simp: dom_def)
  have "\<forall>pl \<in> set pls. \<exists>k. map_of ?items (piece pl) = Some k \<and> k \<in> dom ?m0"
  proof
    fix pl assume "pl \<in> set pls"
    with assms(2) have "piece pl \<in> set (map fst PIECES)" by simp
    moreover have "set (map fst ?items) = set (map fst PIECES)" by (simp only: piece_col_keys)
    ultimately have "piece pl \<in> fst ` set ?items" by simp
    then obtain k where k: "map_of ?items (piece pl) = Some k"
      by (metis domD dom_map_of_conv_image_fst)
    from map_of_SomeD[OF k] have "k \<in> snd ` set ?items" by force
    with k show "\<exists>k. map_of ?items (piece pl) = Some k \<and> k \<in> dom ?m0"
      unfolding dom0 by auto
  qed
  moreover have "?bc \<subseteq> dom ?m0" unfolding dom0 by blast
  ultimately obtain m' where
    "for_each (index_row ?bc (map_of ?items)) (enumerate 0 pls) ?m0 = Inr m'"
    using index_rows_returns by blast
  then show ?thesis
    unfolding make_ctx_def make_board_cols_eq
    by (simp add: make_piece_cols_eq[OF assms(1)] Let_def)
qed

lemma ex_july6_eq: "ex_july6 = {(1, 0), (2, 5)}"
  by (simp add: ex_july6_def month_cell_def day_cell_def)

lemma excluded_ok_july6: "excluded_ok ex_july6"
  by (simp add: ex_july6_eq excluded_ok_def valid_cell_def ROW_WIDTHS_def)

lemma bcols_nonempty:
  assumes "excluded_ok ex"
  shows "{i. i < 43 \<and> BOARD_CELLS ! i \<notin> ex} \<noteq> {}"
  using card_bcols[OF assms] by (metis card.empty zero_neq_numeral)

theorem universe_columns_witness:
  "excluded_ok ex_july6 \<and> (\<exists>cx. make_ctx [] ex_july6 = Inr cx \<and> card (universe cx) = 49
      \<and> card (board_cols cx) = 41 \<and> ran (piece_cols cx) \<inter> board_cols cx = {})"
proof -
  obtain cx where cx: "make_ctx [] ex_july6 = Inr cx"
    using make_ctx_returns[OF bcols_nonempty[OF excluded_ok_july6], of "[]"] by auto
  note u = universe_columns[OF excluded_ok_july6 cx]
  from u have a: "card (board_cols cx) = 43 - 2" by blast
  from u have b: "card (universe cx) = 43 - 2 + 8" by blast
  from u have c: "ran (piece_cols cx) \<inter> board_cols cx = {}" by blast
  have a': "card (board_cols cx) = 41" using a by simp
  have b': "card (universe cx) = 49" using b by simp
  from excluded_ok_july6 cx a' b' c show ?thesis by blast
qed

lemma bcols_jan31:
  "{i. i < 43 \<and> BOARD_CELLS ! i \<notin> {month_cell 1, day_cell 31}} = {i. i < 43 \<and> i \<noteq> 0 \<and> i \<noteq> 42}"
proof -
  have e: "month_cell 1 = (0, 0)" "day_cell 31 = (6, 2)"
    by (simp_all add: month_cell_def day_cell_def)
  have c: "BOARD_CELLS ! 0 = (0, 0)" "BOARD_CELLS ! 42 = (6, 2)" by (simp_all add: BOARD_CELLS_eq)
  have "(BOARD_CELLS ! i \<notin> {month_cell 1, day_cell 31}) = (i \<noteq> 0 \<and> i \<noteq> 42)" if "i < 43" for i
  proof -
    have "(BOARD_CELLS ! i = BOARD_CELLS ! 0) = (i = 0)" "(BOARD_CELLS ! i = BOARD_CELLS ! 42) = (i = 42)"
      using that by (simp_all add: nth_eq_iff_index_eq[OF distinct_BOARD_CELLS] length_BOARD_CELLS)
    then show ?thesis by (simp add: e c)
  qed
  then show ?thesis by auto
qed

lemma Max_bcols_jan31: "Max {i. i < 43 \<and> i \<noteq> 0 \<and> i \<noteq> 42} = (41::nat)"
  by (rule Max_eqI) auto

lemma excluded_ok_jan31: "excluded_ok {month_cell 1, day_cell 31}"
  by (simp add: month_cell_def day_cell_def excluded_ok_def valid_cell_def ROW_WIDTHS_def)

text \<open>
  Claim C8 fails as stated in its last clause. For January 31 the excluded cells are (0,0)
  and (6,2), the last cell of the board, whose column is 42. The largest column of a
  non-excluded cell is then 41, and the piece column of A is 42: a piece column that is the
  column of a board cell.
\<close>

theorem piece_column_of_excluded_cell:
  "excluded_ok {month_cell 1, day_cell 31}
   \<and> (\<exists>cx. make_ctx [] {month_cell 1, day_cell 31} = Inr cx
         \<and> valid_cell (day_cell 31) \<and> CELL_TO_COL (day_cell 31) = Some 42
         \<and> piece_cols cx ''A'' = Some 42
         \<and> 42 \<in> ran (piece_cols cx) \<inter> {i. \<exists>rc. valid_cell rc \<and> CELL_TO_COL rc = Some i}
         \<and> ran (piece_cols cx) \<inter> {i. \<exists>rc. valid_cell rc \<and> CELL_TO_COL rc = Some i} \<noteq> {})"
proof -
  let ?ex = "{month_cell 1, day_cell 31}"
  from make_ctx_returns[OF bcols_nonempty[OF excluded_ok_jan31], of "[]"] obtain cx where
    cx: "make_ctx [] ?ex = Inr cx" by auto
  have v: "valid_cell (day_cell 31)"
    by (simp add: day_cell_def valid_cell_def ROW_WIDTHS_def)
  have d: "day_cell 31 = (6, 2)" by (simp add: day_cell_def)
  have "BOARD_CELLS ! 42 = (6, 2)" by (simp add: BOARD_CELLS_eq)
  with CELL_TO_COL_nth[of 42] have col: "CELL_TO_COL (day_cell 31) = Some 42"
    by (simp add: d)
  have pc: "piece_cols cx = map_of (piece_col_items 41)"
    using make_ctx_Inr(4)[OF cx] by (simp only: bcols_jan31 Max_bcols_jan31)
  have a: "piece_cols cx ''A'' = Some 42" by (simp add: pc piece_col_items_def)
  then have r: "42 \<in> ran (piece_cols cx)" by (auto simp: ran_def)
  from v col have b: "42 \<in> {i. \<exists>rc. valid_cell rc \<and> CELL_TO_COL rc = Some i}" by blast
  from r b have m: "42 \<in> ran (piece_cols cx) \<inter> {i. \<exists>rc. valid_cell rc \<and> CELL_TO_COL rc = Some i}"
    by (rule IntI)
  then have n: "ran (piece_cols cx) \<inter> {i. \<exists>rc. valid_cell rc \<and> CELL_TO_COL rc = Some i} \<noteq> {}"
    by blast
  show ?thesis
    by (rule conjI[OF excluded_ok_jan31], rule exI[of _ cx], intro conjI)
       (rule cx, rule v, rule col, rule a, rule m, rule n)
qed

section \<open>The backtracking search\<close>

lemma for_rows_error:
  "row_cols cx row = Inl e \<Longrightarrow> for_rows n iter cx (row # rows) s = Some (Inl e)"
  by simp

lemma for_rows_conflict:
  "row_cols cx row = Inr rc \<Longrightarrow> rc \<inter> used s \<noteq> {} \<Longrightarrow>
   for_rows n iter cx (row # rows) s = for_rows n iter cx rows (s\<lparr>tries := tries s + 1\<rparr>)"
  by simp

lemma for_rows_push:
  "row_cols cx row = Inr rc \<Longrightarrow> rc \<inter> used s = {} \<Longrightarrow>
   for_rows n iter cx (row # rows) s =
     (case search n iter cx (s\<lparr>tries := tries s + 1, sol := sol s @ [row], used := used s \<union> rc\<rparr>) of
        None \<Rightarrow> None
      | Some (Inl e) \<Rightarrow> Some (Inl e)
      | Some (Inr (True, s2)) \<Rightarrow> Some (Inr (True, s2))
      | Some (Inr (False, s2)) \<Rightarrow>
          for_rows n iter cx rows (s2\<lparr>sol := butlast (sol s2), used := used s2 - rc\<rparr>))"
  by (simp add: Let_def)

lemma for_rows_push_cases:
  assumes "row_cols cx row = Inr rc" "rc \<inter> used s = {}"
    and "for_rows n iter cx (row # rows) s = Some (Inr (b, s'))"
  obtains (found) s2 where
      "search n iter cx (s\<lparr>tries := tries s + 1, sol := sol s @ [row], used := used s \<union> rc\<rparr>)
         = Some (Inr (True, s2))" "b" "s' = s2"
    | (failed) s2 where
      "search n iter cx (s\<lparr>tries := tries s + 1, sol := sol s @ [row], used := used s \<union> rc\<rparr>)
         = Some (Inr (False, s2))"
      "for_rows n iter cx rows (s2\<lparr>sol := butlast (sol s2), used := used s2 - rc\<rparr>) = Some (Inr (b, s'))"
proof -
  let ?s2 = "s\<lparr>tries := tries s + 1, sol := sol s @ [row], used := used s \<union> rc\<rparr>"
  note eq = for_rows_push[OF assms(1,2), of n iter rows]
  show ?thesis
  proof (cases "search n iter cx ?s2")
    case None
    with eq assms(3) show ?thesis by simp
  next
    case (Some r)
    show ?thesis
    proof (cases r)
      case (Inl e)
      with eq assms(3) Some show ?thesis by simp
    next
      case (Inr p)
      obtain f s2 where p: "p = (f, s2)" by (cases p)
      show ?thesis
      proof (cases f)
        case True
        with eq assms(3) Some Inr p have "b" "s' = s2" by simp_all
        with Some Inr p True found show ?thesis by simp
      next
        case False
        with eq assms(3) Some Inr p
        have "for_rows n iter cx rows (s2\<lparr>sol := butlast (sol s2), used := used s2 - rc\<rparr>) = Some (Inr (b, s'))"
          by simp
        with Some Inr p False failed show ?thesis by simp
      qed
    qed
  qed
qed

lemma search_Suc_cases:
  assumes "search (Suc n) iter cx s = Some (Inr (b, s'))"
  obtains (terminal) "used s = universe cx" "b" "s' = s"
    | (loop) col rows where "used s \<noteq> universe cx" "choose_col iter cx s = Inr col"
        "col_to_rows cx col = Some rows" "for_rows n iter cx rows s = Some (Inr (b, s'))"
proof (cases "used s = universe cx")
  case True
  with assms have "b" "s' = s" by simp_all
  with True terminal show ?thesis by simp
next
  case False
  show ?thesis
  proof (cases "choose_col iter cx s")
    case (Inl e)
    with assms False show ?thesis by simp
  next
    case (Inr col)
    show ?thesis
    proof (cases "col_to_rows cx col")
      case None
      with assms False Inr show ?thesis by (simp add: py_lookup_def)
    next
      case (Some rows)
      with assms False Inr have "for_rows n iter cx rows s = Some (Inr (b, s'))"
        by (simp add: py_lookup_def)
      with False Inr Some loop show ?thesis by simp
    qed
  qed
qed

lemma search_failure_restores:
  "search n iter cx s = Some (Inr (False, s')) \<Longrightarrow> sol s' = sol s \<and> used s' = used s"
  "for_rows n iter cx rows s = Some (Inr (False, s')) \<Longrightarrow> sol s' = sol s \<and> used s' = used s"
proof (induction n iter cx s and n iter cx rows s arbitrary: s' and s' rule: search_for_rows.induct)
  case (1 iter cx s)
  then show ?case by simp
next
  case (2 n iter cx s)
  from 2(2) show ?case
  proof (cases rule: search_Suc_cases)
    case terminal
    then show ?thesis by simp
  next
    case (loop col rows)
    from 2(1)[OF loop(1,2) _ loop(4)] loop(3) show ?thesis by (simp add: py_lookup_def)
  qed
next
  case (3 n iter cx s)
  then show ?case by simp
next
  case (4 n iter cx row rows s)
  show ?case
  proof (cases "row_cols cx row")
    case (Inl e)
    with 4(4) show ?thesis by simp
  next
    case (Inr rc)
    let ?s1 = "s\<lparr>tries := tries s + 1\<rparr>"
    show ?thesis
    proof (cases "rc \<inter> used s = {}")
      case False
      with 4(4) Inr have "for_rows n iter cx rows ?s1 = Some (Inr (False, s'))" by simp
      from 4(1)[OF refl Inr _ this] False show ?thesis by simp
    next
      case True
      from Inr True 4(4) show ?thesis
      proof (cases rule: for_rows_push_cases)
        case (found s2)
        then show ?thesis by simp
      next
        case (failed s2)
        have nc: "\<not> rc \<inter> used ?s1 \<noteq> {}" using True by simp
        have f1: "search n iter cx (?s1\<lparr>sol := sol ?s1 @ [row], used := used ?s1 \<union> rc\<rparr>)
                    = Some (Inr (False, s2))"
          using failed(1) by simp
        from 4(2)[OF refl Inr nc f1]
        have r3: "sol s2 = sol s @ [row]" "used s2 = used s \<union> rc" by simp_all
        from 4(3)[OF refl Inr nc f1 refl refl refl failed(2)] r3 True
        show ?thesis by auto
      qed
    qed
  qed
qed

lemma row_cols_Inr:
  "row_cols cx row = Inr rc \<longleftrightarrow>
     row < length (placements cx) \<and>
     (\<exists>k. piece_cols cx (piece (placements cx ! row)) = Some k
          \<and> rc = (set (squares (placements cx ! row)) \<inter> board_cols cx) \<union> {k})"
  by (auto simp: row_cols_def py_index_def cols_of_Inr)

lemma row_cols_piece_col:
  assumes "row_cols cx row = Inr rc"
  shows "\<exists>k \<in> ran (piece_cols cx). k \<in> rc"
  using assms by (auto simp: row_cols_Inr ran_def)

lemma search_fuel_enough:
  assumes fin: "finite (ran (piece_cols cx))"
  shows "card (ran (piece_cols cx) - used s) < n \<Longrightarrow> search n iter cx s \<noteq> None"
    and "card (ran (piece_cols cx) - used s) \<le> n \<Longrightarrow> for_rows n iter cx rows s \<noteq> None"
  using fin
proof (induction n iter cx s and n iter cx rows s rule: search_for_rows.induct)
  case (1 iter cx s)
  then show ?case by simp
next
  case (2 n iter cx s)
  show ?case
  proof (cases "used s = universe cx")
    case True then show ?thesis by simp
  next
    case False
    show ?thesis
    proof (cases "choose_col iter cx s")
      case (Inl e) with False show ?thesis by simp
    next
      case (Inr col)
      show ?thesis
      proof (cases "py_lookup (col_to_rows cx) col")
        case (Inl e) with False \<open>choose_col iter cx s = Inr col\<close> show ?thesis by simp
      next
        case (Inr rows)
        from 2(2) have "card (ran (piece_cols cx) - used s) \<le> n" by simp
        from 2(1)[OF False \<open>choose_col iter cx s = Inr col\<close> Inr this 2(3)]
        show ?thesis using False \<open>choose_col iter cx s = Inr col\<close> Inr by simp
      qed
    qed
  qed
next
  case (3 n iter cx s)
  then show ?case by simp
next
  case (4 n iter cx row rows s)
  let ?P = "ran (piece_cols cx)"
  let ?s1 = "s\<lparr>tries := tries s + 1\<rparr>"
  show ?case
  proof (cases "row_cols cx row")
    case (Inl e) then show ?thesis by simp
  next
    case (Inr rc)
    show ?thesis
    proof (cases "rc \<inter> used s = {}")
      case False
      have "card (?P - used ?s1) \<le> n" using 4(4) by simp
      from 4(1)[OF refl Inr _ this 4(5)] False Inr show ?thesis by simp
    next
      case True
      let ?s2 = "?s1\<lparr>sol := sol ?s1 @ [row], used := used ?s1 \<union> rc\<rparr>"
      have nc: "\<not> rc \<inter> used ?s1 \<noteq> {}" using True by simp
      from row_cols_piece_col[OF Inr] obtain k where k: "k \<in> ?P" "k \<in> rc" by blast
      with True have knu: "k \<notin> used s" by auto
      have "?P - used ?s2 \<subset> ?P - used s" using k knu by auto
      then have "card (?P - used ?s2) < card (?P - used s)"
        using 4(5) by (intro psubset_card_mono) simp_all
      with 4(4) have lt: "card (?P - used ?s2) < n" by simp
      from 4(2)[OF refl Inr nc lt 4(5)] obtain r where r: "search n iter cx ?s2 = Some r"
        by blast
      have eq: "for_rows n iter cx (row # rows) s =
          (case r of Inl e \<Rightarrow> Some (Inl e)
           | Inr (True, s2) \<Rightarrow> Some (Inr (True, s2))
           | Inr (False, s2) \<Rightarrow>
               for_rows n iter cx rows (s2\<lparr>sol := butlast (sol s2), used := used s2 - rc\<rparr>))"
        using Inr True r by (simp add: Let_def)
      show ?thesis
      proof (cases r)
        case (Inl e) with eq show ?thesis by simp
      next
        case (Inr p)
        obtain f s3 where p: "p = (f, s3)" by (cases p)
        show ?thesis
        proof (cases f)
          case True with eq Inr p show ?thesis by simp
        next
          case False
          from r Inr p False have f1: "search n iter cx ?s2 = Some (Inr (False, s3))" by simp
          from search_failure_restores(1)[OF f1] have "used s3 = used s \<union> rc" by simp
          with \<open>rc \<inter> used s = {}\<close> have "used s3 - rc = used s" by auto
          then have "card (?P - used (s3\<lparr>sol := butlast (sol s3), used := used s3 - rc\<rparr>)) \<le> n"
            using 4(4) by simp
          from 4(3)[OF refl \<open>row_cols cx row = Inr rc\<close> nc f1 refl refl refl this 4(5)]
          show ?thesis using eq Inr p False by simp
        qed
      qed
    qed
  qed
qed

lemma search_fuel_mono:
  "search n iter cx s = Some r \<Longrightarrow> search (n + k) iter cx s = Some r"
  "for_rows n iter cx rows s = Some r \<Longrightarrow> for_rows (n + k) iter cx rows s = Some r"
proof (induction n iter cx s and n iter cx rows s arbitrary: r and r rule: search_for_rows.induct)
  case (1 iter cx s)
  then show ?case by simp
next
  case (2 n iter cx s)
  show ?case
  proof (cases "used s = universe cx")
    case True with 2(2) show ?thesis by simp
  next
    case False
    show ?thesis
    proof (cases "choose_col iter cx s")
      case (Inl e) with False 2(2) show ?thesis by simp
    next
      case (Inr col)
      show ?thesis
      proof (cases "py_lookup (col_to_rows cx) col")
        case (Inl e) with False \<open>choose_col iter cx s = Inr col\<close> 2(2) show ?thesis by simp
      next
        case (Inr rows)
        with False \<open>choose_col iter cx s = Inr col\<close> 2(2)
        have "for_rows n iter cx rows s = Some r" by simp
        from 2(1)[OF False \<open>choose_col iter cx s = Inr col\<close> Inr this]
        show ?thesis using False \<open>choose_col iter cx s = Inr col\<close> Inr by simp
      qed
    qed
  qed
next
  case (3 n iter cx s)
  then show ?case by simp
next
  case (4 n iter cx row rows s)
  let ?s1 = "s\<lparr>tries := tries s + 1\<rparr>"
  show ?case
  proof (cases "row_cols cx row")
    case (Inl e) with 4(4) show ?thesis by simp
  next
    case (Inr rc)
    show ?thesis
    proof (cases "rc \<inter> used s = {}")
      case False
      with 4(4) Inr have "for_rows n iter cx rows ?s1 = Some r" by simp
      from 4(1)[OF refl Inr _ this] False Inr show ?thesis by simp
    next
      case True
      let ?s2 = "?s1\<lparr>sol := sol ?s1 @ [row], used := used ?s1 \<union> rc\<rparr>"
      have nc: "\<not> rc \<inter> used ?s1 \<noteq> {}" using True by simp
      have unf: "\<And>m. for_rows m iter cx (row # rows) s =
          (case search m iter cx ?s2 of None \<Rightarrow> None
           | Some (Inl e) \<Rightarrow> Some (Inl e)
           | Some (Inr (True, s2)) \<Rightarrow> Some (Inr (True, s2))
           | Some (Inr (False, s2)) \<Rightarrow>
               for_rows m iter cx rows (s2\<lparr>sol := butlast (sol s2), used := used s2 - rc\<rparr>))"
        using Inr True by (simp add: Let_def)
      from 4(4) unf[of n] obtain x where x: "search n iter cx ?s2 = Some x"
        by (cases "search n iter cx ?s2") simp_all
      from 4(2)[OF refl Inr nc x] have xk: "search (n + k) iter cx ?s2 = Some x" .
      show ?thesis
      proof (cases x)
        case (Inl e)
        with 4(4) unf[of n] unf[of "n + k"] x xk show ?thesis by simp
      next
        case (Inr p)
        obtain f s3 where p: "p = (f, s3)" by (cases p)
        show ?thesis
        proof (cases f)
          case True
          with 4(4) unf[of n] unf[of "n + k"] x xk Inr p show ?thesis by simp
        next
          case False
          with 4(4) unf[of n] x Inr p
          have "for_rows n iter cx rows (s3\<lparr>sol := butlast (sol s3), used := used s3 - rc\<rparr>) = Some r"
            by simp
          moreover from x Inr p False have f1: "search n iter cx ?s2 = Some (Inr (False, s3))" by simp
          ultimately have "for_rows (n + k) iter cx rows
              (s3\<lparr>sol := butlast (sol s3), used := used s3 - rc\<rparr>) = Some r"
            using 4(3)[OF refl \<open>row_cols cx row = Inr rc\<close> nc f1 refl refl refl] by blast
          then
          show ?thesis using unf[of "n + k"] xk Inr p False by simp
        qed
      qed
    qed
  qed
qed


lemma search_success:
  "search n iter cx s = Some (Inr (True, s')) \<Longrightarrow>
     used s' = universe cx \<and>
     (\<exists>rs. sol s' = sol s @ rs \<and> push_rows cx rs (used s) = Some (used s'))"
  "for_rows n iter cx rows s = Some (Inr (True, s')) \<Longrightarrow>
     used s' = universe cx \<and>
     (\<exists>rs. rs \<noteq> [] \<and> sol s' = sol s @ rs \<and> push_rows cx rs (used s) = Some (used s'))"
proof (induction n iter cx s and n iter cx rows s arbitrary: s' and s' rule: search_for_rows.induct)
  case (1 iter cx s)
  then show ?case by simp
next
  case (2 n iter cx s)
  from 2(2) show ?case
  proof (cases rule: search_Suc_cases)
    case terminal
    then show ?thesis by (auto intro: exI[of _ "[]"])
  next
    case (loop col rows)
    from loop(3) have "py_lookup (col_to_rows cx) col = Inr rows" by (simp add: py_lookup_def)
    from 2(1)[OF loop(1,2) this loop(4)] show ?thesis by blast
  qed
next
  case (3 n iter cx s)
  then show ?case by simp
next
  case (4 n iter cx row rows s)
  let ?s1 = "s\<lparr>tries := tries s + 1\<rparr>"
  show ?case
  proof (cases "row_cols cx row")
    case (Inl e)
    with 4(4) show ?thesis by simp
  next
    case (Inr rc)
    show ?thesis
    proof (cases "rc \<inter> used s = {}")
      case False
      with 4(4) Inr have "for_rows n iter cx rows ?s1 = Some (Inr (True, s'))" by simp
      from 4(1)[OF refl Inr _ this] False show ?thesis by auto
    next
      case True
      have nc: "\<not> rc \<inter> used ?s1 \<noteq> {}" using True by simp
      from Inr True 4(4) show ?thesis
      proof (cases rule: for_rows_push_cases)
        case (found s2)
        then have f1: "search n iter cx (?s1\<lparr>sol := sol ?s1 @ [row], used := used ?s1 \<union> rc\<rparr>)
                    = Some (Inr (True, s'))" by simp
        from 4(2)[OF refl Inr nc f1] obtain rs where
          u: "used s' = universe cx" and rs: "sol s' = (sol s @ [row]) @ rs"
          "push_rows cx rs (used s \<union> rc) = Some (used s')" by auto
        have "push_rows cx (row # rs) (used s) = Some (used s')"
          using Inr True rs(2) by simp
        with rs(1) u show ?thesis by (intro conjI exI[of _ "row # rs"]) simp_all
      next
        case (failed s2)
        have f1: "search n iter cx (?s1\<lparr>sol := sol ?s1 @ [row], used := used ?s1 \<union> rc\<rparr>)
                    = Some (Inr (False, s2))"
          using failed(1) by simp
        from search_failure_restores(1)[OF f1]
        have r3: "sol s2 = sol s @ [row]" "used s2 = used s \<union> rc" by simp_all
        have u2: "used (s2\<lparr>sol := butlast (sol s2), used := used s2 - rc\<rparr>) = used s"
          using r3 True by auto
        have l2: "sol (s2\<lparr>sol := butlast (sol s2), used := used s2 - rc\<rparr>) = sol s"
          using r3 by simp
        from 4(3)[OF refl Inr nc f1 refl refl refl failed(2), unfolded u2 l2]
        show ?thesis .
      qed
    qed
  qed
qed

text \<open>
  Claim C3, as amended. A candidate row that conflicts with \<open>used\<close> changes neither
  \<open>sol\<close> nor \<open>used\<close>. A branch that pushes a row and whose recursive call fails
  continues with \<open>sol\<close> and \<open>used\<close> exactly as they were before the push, and a call
  of \<open>search\<close> or of its loop that returns \<open>False\<close> leaves both as it found them. On
  the early return that propagates a found solution nothing is undone: the rows pushed
  stay on \<open>sol\<close> and \<open>used\<close> is the universe.
\<close>

theorem search_undo_on_failure_only:
  "(row_cols cx row = Inr rc \<and> rc \<inter> used s = {}
      \<and> search n iter cx (s\<lparr>tries := tries s + 1, sol := sol s @ [row], used := used s \<union> rc\<rparr>)
           = Some (Inr (False, s2))
    \<longrightarrow> sol (s2\<lparr>sol := butlast (sol s2), used := used s2 - rc\<rparr>) = sol s
        \<and> used (s2\<lparr>sol := butlast (sol s2), used := used s2 - rc\<rparr>) = used s
        \<and> for_rows n iter cx (row # rows) s
            = for_rows n iter cx rows (s2\<lparr>sol := butlast (sol s2), used := used s2 - rc\<rparr>))
   \<and> (search n iter cx s = Some (Inr (False, s')) \<longrightarrow> sol s' = sol s \<and> used s' = used s)
   \<and> (for_rows n iter cx rows s = Some (Inr (False, s')) \<longrightarrow> sol s' = sol s \<and> used s' = used s)
   \<and> (for_rows n iter cx rows s = Some (Inr (True, s')) \<longrightarrow>
        used s' = universe cx
        \<and> (\<exists>rs. rs \<noteq> [] \<and> sol s' = sol s @ rs \<and> push_rows cx rs (used s) = Some (used s')))
   \<and> (row_cols cx row = Inr rc \<and> rc \<inter> used s \<noteq> {} \<longrightarrow>
        for_rows n iter cx (row # rows) s = for_rows n iter cx rows (s\<lparr>tries := tries s + 1\<rparr>))"
proof -
  have branch: "sol (s2\<lparr>sol := butlast (sol s2), used := used s2 - rc\<rparr>) = sol s
        \<and> used (s2\<lparr>sol := butlast (sol s2), used := used s2 - rc\<rparr>) = used s
        \<and> for_rows n iter cx (row # rows) s
            = for_rows n iter cx rows (s2\<lparr>sol := butlast (sol s2), used := used s2 - rc\<rparr>)"
    if a: "row_cols cx row = Inr rc \<and> rc \<inter> used s = {}
      \<and> search n iter cx (s\<lparr>tries := tries s + 1, sol := sol s @ [row], used := used s \<union> rc\<rparr>)
           = Some (Inr (False, s2))"
  proof -
    from a have f: "search n iter cx
        (s\<lparr>tries := tries s + 1, sol := sol s @ [row], used := used s \<union> rc\<rparr>)
           = Some (Inr (False, s2))" by simp
    from search_failure_restores(1)[OF f]
    have r: "sol s2 = sol s @ [row]" "used s2 = used s \<union> rc" by simp_all
    from r have 1: "sol (s2\<lparr>sol := butlast (sol s2), used := used s2 - rc\<rparr>) = sol s" by simp
    from r a have 2: "used (s2\<lparr>sol := butlast (sol s2), used := used s2 - rc\<rparr>) = used s" by auto
    from a f have 3: "for_rows n iter cx (row # rows) s
            = for_rows n iter cx rows (s2\<lparr>sol := butlast (sol s2), used := used s2 - rc\<rparr>)"
      by (simp add: for_rows_push)
    from 1 2 3 show ?thesis by blast
  qed
  have fail1: "sol s' = sol s \<and> used s' = used s"
    if "search n iter cx s = Some (Inr (False, s'))"
    using that by (rule search_failure_restores(1))
  have fail2: "sol s' = sol s \<and> used s' = used s"
    if "for_rows n iter cx rows s = Some (Inr (False, s'))"
    using that by (rule search_failure_restores(2))
  have succ: "used s' = universe cx
        \<and> (\<exists>rs. rs \<noteq> [] \<and> sol s' = sol s @ rs \<and> push_rows cx rs (used s) = Some (used s'))"
    if "for_rows n iter cx rows s = Some (Inr (True, s'))"
    using that by (rule search_success(2))
  have conflict: "for_rows n iter cx (row # rows) s
        = for_rows n iter cx rows (s\<lparr>tries := tries s + 1\<rparr>)"
    if "row_cols cx row = Inr rc \<and> rc \<inter> used s \<noteq> {}"
    using that by (simp add: for_rows_conflict)
  from branch fail1 fail2 succ conflict show ?thesis by blast
qed

lemma card_ran_piece_cols: "card (ran (map_of (piece_col_items m))) = 8"
  by (simp add: ran_piece_cols)

text \<open>
  Claim C7. \<open>solve_exact_cover\<close> returns (a result or an exception) for every placement
  list and every excluded set, and the recursion of \<open>search\<close> never goes deeper than 8
  calls below the first one: 9 units of depth are enough, and any larger bound gives the
  same result.
\<close>

theorem solve_exact_cover_depth_8:
  "solve_exact_cover 9 iter pls ex \<noteq> None
   \<and> solve_exact_cover (9 + k) iter pls ex = solve_exact_cover 9 iter pls ex"
proof (cases "make_ctx pls ex")
  case (Inl e)
  then show ?thesis by (simp add: solve_exact_cover_def)
next
  case (Inr cx)
  let ?s0 = "\<lparr>sol = [], used = {}, tries = 0\<rparr>"
  from make_ctx_Inr(4)[OF Inr]
  have fin: "finite (ran (piece_cols cx))" and c: "card (ran (piece_cols cx)) = 8"
    by (simp_all add: ran_piece_cols)
  have "card (ran (piece_cols cx) - used ?s0) < 9" using c by simp
  from search_fuel_enough(1)[OF fin this] obtain r where r: "search 9 iter cx ?s0 = Some r"
    by blast
  from search_fuel_mono(1)[OF r] have rk: "search (9 + k) iter cx ?s0 = Some r" .
  have "solve_exact_cover 9 iter pls ex \<noteq> None"
    using Inr r by (simp add: solve_exact_cover_def split: sum.splits prod.splits)
  moreover have "solve_exact_cover (9 + k) iter pls ex = solve_exact_cover 9 iter pls ex"
    using Inr r rk by (simp add: solve_exact_cover_def)
  ultimately show ?thesis by simp
qed


theorem solve_exact_cover_depth_8_witness:
  "solve_exact_cover 9 sorted_list_of_set [] ex_july6 \<noteq> None
   \<and> solve_exact_cover 12 sorted_list_of_set [] ex_july6
       = solve_exact_cover 9 sorted_list_of_set [] ex_july6"
  using solve_exact_cover_depth_8[of sorted_list_of_set "[]" ex_july6 3] by simp

section \<open>Orientations\<close>

lemma first_seen_Nil [simp]: "first_seen [] = []"
  by (simp add: first_seen_def)

lemma first_seen_snoc:
  "first_seen (xs @ [x]) = first_seen xs @ (if fst x \<in> fst ` set xs then [] else [x])"
proof -
  have "filter (\<lambda>(i, y). fst y \<notin> fst ` set (take i (xs @ [x]))) (enumerate 0 xs)
        = filter (\<lambda>(i, y). fst y \<notin> fst ` set (take i xs)) (enumerate 0 xs)"
    by (rule filter_cong) (auto simp: in_set_enumerate_eq)
  then show ?thesis
    by (simp add: first_seen_def enumerate_append_eq)
qed

lemma first_seen_keys: "fst ` set (first_seen xs) = fst ` set xs"
  by (induction xs rule: rev_induct) (auto simp: first_seen_snoc)

lemma first_seen_distinct: "distinct (map fst (first_seen xs))"
proof (induction xs rule: rev_induct)
  case Nil show ?case by simp
next
  case (snoc x xs)
  have "fst x \<notin> fst ` set xs \<Longrightarrow> fst x \<notin> fst ` set (first_seen xs)"
    by (simp add: first_seen_keys)
  with snoc show ?case by (simp add: first_seen_snoc)
qed

lemma first_seen_subset: "set (first_seen xs) \<subseteq> set xs"
  by (induction xs rule: rev_induct) (auto simp: first_seen_snoc)

lemma first_seen_length: "length (first_seen xs) \<le> length xs"
  by (simp add: first_seen_def) (metis length_enumerate length_filter_le)

lemma first_seen_nonempty: "xs \<noteq> [] \<Longrightarrow> first_seen xs \<noteq> []"
  using first_seen_keys[of xs] by (metis image_is_empty set_empty)

lemma for_each_rel:
  assumes "R s t"
    and "\<And>x s t. x \<in> set xs \<Longrightarrow> R s t \<Longrightarrow> rel_sum (=) R (f x s) (g x t)"
  shows "rel_sum (=) R (for_each f xs s) (for_each g xs t)"
  using assms
proof (induction xs arbitrary: s t)
  case Nil then show ?case by simp
next
  case (Cons x xs)
  from Cons.prems have step: "rel_sum (=) R (f x s) (g x t)" by simp
  show ?case
  proof (cases "f x s")
    case (Inl e)
    with step show ?thesis by (cases "g x t") simp_all
  next
    case (Inr s1)
    with step obtain t1 where t1: "g x t = Inr t1" "R s1 t1" by (cases "g x t") simp_all
    from Cons.IH[OF t1(2)] Cons.prems(2) Inr t1(1) show ?thesis by simp
  qed
qed

lemma rot_body_rel:
  assumes "seen_rel st cands"
  shows "rel_sum (=) seen_rel (rot_body cs0 fl rot st) (cand_body cs0 fl rot cands)"
proof -
  obtain seen out where st: "st = (seen, out)" by (cases st)
  with assms have r: "seen = fst ` set cands" "out = first_seen cands"
    by (simp_all add: seen_rel_def)
  show ?thesis
  proof (cases "rotate_times (nat (rot div 90)) cs0")
    case (Inl e) then show ?thesis by (simp add: rot_body_def cand_body_def st)
  next
    case (Inr cs)
    show ?thesis
    proof (cases "normalize cs")
      case (Inl e) with \<open>rotate_times (nat (rot div 90)) cs0 = Inr cs\<close> show ?thesis
        by (simp add: rot_body_def cand_body_def st)
    next
      case (Inr ncs)
      with \<open>rotate_times (nat (rot div 90)) cs0 = Inr cs\<close> r show ?thesis
        by (auto simp: rot_body_def cand_body_def st seen_rel_def first_seen_snoc)
    qed
  qed
qed

lemma flip_body_rel:
  assumes "seen_rel st cands"
  shows "rel_sum (=) seen_rel (flip_body base fl st) (cand_flip_body base fl cands)"
proof (cases "if fl then flip base else Inr base")
  case (Inl e) then show ?thesis by (simp add: flip_body_def cand_flip_body_def)
next
  case (Inr cs0)
  have "rel_sum (=) seen_rel (for_each (rot_body cs0 fl) [0, 90, 180, 270] st)
          (for_each (cand_body cs0 fl) [0, 90, 180, 270] cands)"
    by (rule for_each_rel[where R = seen_rel, OF assms]) (rule rot_body_rel)
  with Inr show ?thesis by (simp add: flip_body_def cand_flip_body_def)
qed

lemma all_transforms_candidates:
  "all_transforms g = bind_err (candidates g) (\<lambda>cands. Inr (first_seen cands))"
proof -
  let ?base = "grid_to_coords g"
  have "seen_rel ({}, []) []" by (simp add: seen_rel_def)
  then have rel: "rel_sum (=) seen_rel (for_each (flip_body ?base) [False, True] ({}, []))
          (for_each (cand_flip_body ?base) [False, True] [])"
    by (rule for_each_rel[where R = seen_rel]) (rule flip_body_rel)
  show ?thesis
  proof (cases "candidates g")
    case (Inl e)
    with rel show ?thesis
      by (cases "for_each (flip_body ?base) [False, True] ({}, [])")
         (simp_all add: all_transforms_def candidates_def)
  next
    case (Inr cands)
    with rel obtain st where "for_each (flip_body ?base) [False, True] ({}, []) = Inr st"
      "seen_rel st cands"
      by (cases "for_each (flip_body ?base) [False, True] ({}, [])") (simp_all add: candidates_def)
    with Inr show ?thesis
      by (cases st) (simp add: all_transforms_def seen_rel_def)
  qed
qed


lemma py_max_Max:
  assumes "xs \<noteq> []"
  shows "py_max xs = Inr (Max (set xs))"
proof (cases xs)
  case Nil with assms show ?thesis by simp
next
  case (Cons x ys)
  then show ?thesis using Max.set_eq_fold[of x ys] by (simp add: py_max_def)
qed

lemma py_min_Min:
  assumes "xs \<noteq> []"
  shows "py_min xs = Inr (Min (set xs))"
proof (cases xs)
  case Nil with assms show ?thesis by simp
next
  case (Cons x ys)
  then show ?thesis using Min.set_eq_fold[of x ys] by (simp add: py_min_def)
qed

lemma py_max_Nil: "py_max [] = Inl ValueError"
  by (simp add: py_max_def)

lemma py_min_Nil: "py_min [] = Inl ValueError"
  by (simp add: py_min_def)

lemma rotate_nonempty:
  "cs \<noteq> [] \<Longrightarrow> \<exists>cs'. rotate cs = Inr cs' \<and> cs' \<noteq> []"
  by (simp add: rotate_def py_max_Max Let_def)

lemma flip_nonempty:
  "cs \<noteq> [] \<Longrightarrow> \<exists>cs'. flip cs = Inr cs' \<and> cs' \<noteq> []"
  by (simp add: flip_def py_max_Max Let_def)

lemma rotate_times_nonempty:
  "cs \<noteq> [] \<Longrightarrow> \<exists>cs'. rotate_times k cs = Inr cs' \<and> cs' \<noteq> []"
proof (induction k arbitrary: cs)
  case 0 then show ?case by simp
next
  case (Suc k)
  from rotate_nonempty[OF Suc.prems] obtain c1 where "rotate cs = Inr c1" "c1 \<noteq> []" by blast
  with Suc.IH[of c1] show ?case by simp
qed

lemma normalize_Nil: "normalize [] = Inl ValueError"
  by (simp add: normalize_def py_min_Nil)

lemma normalize_idem:
  assumes "normalize cs = Inr n"
  shows "normalize n = Inr n \<and> n \<noteq> []"
proof -
  from assms have ne: "cs \<noteq> []" by (auto simp: normalize_Nil)
  let ?mr = "Min (set (map fst cs))" and ?mc = "Min (set (map snd cs))"
  from assms ne have n: "n = sort (map (\<lambda>(r, c). (r - ?mr, c - ?mc)) cs)"
    by (simp add: normalize_def py_min_Min)
  have "length n = length cs" by (simp add: n)
  with ne have nne: "n \<noteq> []" by auto
  have fin: "finite (fst ` set cs)" "finite (snd ` set cs)" by simp_all
  have fs: "set (map fst n) = (\<lambda>r. r - ?mr) ` fst ` set cs"
    by (simp add: n image_image case_prod_beta del: set_map)
       (simp add: image_image case_prod_beta)
  have sn: "set (map snd n) = (\<lambda>c. c - ?mc) ` snd ` set cs"
    by (simp add: n image_image case_prod_beta del: set_map)
       (simp add: image_image case_prod_beta)
  have "Min ((\<lambda>r. r - ?mr) ` fst ` set cs) = 0"
  proof (rule Min_eqI)
    show "finite ((\<lambda>r. r - ?mr) ` fst ` set cs)" by simp
    show "\<And>y. y \<in> (\<lambda>r. r - ?mr) ` fst ` set cs \<Longrightarrow> 0 \<le> y" by (force intro!: Min_le)
    have "?mr \<in> fst ` set cs" using Min_in[of "fst ` set cs"] ne by simp
    then show "0 \<in> (\<lambda>r. r - ?mr) ` fst ` set cs" by force
  qed
  then have m1: "Min (set (map fst n)) = 0" by (simp only: fs)
  have "Min ((\<lambda>c. c - ?mc) ` snd ` set cs) = 0"
  proof (rule Min_eqI)
    show "finite ((\<lambda>c. c - ?mc) ` snd ` set cs)" by simp
    show "\<And>y. y \<in> (\<lambda>c. c - ?mc) ` snd ` set cs \<Longrightarrow> 0 \<le> y" by (force intro!: Min_le)
    have "?mc \<in> snd ` set cs" using Min_in[of "snd ` set cs"] ne by simp
    then show "0 \<in> (\<lambda>c. c - ?mc) ` snd ` set cs" by force
  qed
  then have m2: "Min (set (map snd n)) = 0" by (simp only: sn)
  have "sorted n" unfolding n by simp
  then have "sort n = n" by (rule sorted_sort_id)
  moreover have "map (\<lambda>(r, c). (r - 0, c - 0)) n = n" by (induction n) auto
  ultimately have "normalize n = Inr n"
    using nne m1 m2 by (simp add: normalize_def py_min_Min del: set_map)
  with nne show ?thesis by simp
qed

lemma normalize_nonempty: "cs \<noteq> [] \<Longrightarrow> \<exists>n. normalize cs = Inr n"
  by (simp add: normalize_def py_min_Min)

lemma cand_body_step:
  assumes "cs0 \<noteq> []"
  shows "\<exists>ncs. normalize ncs = Inr ncs
           \<and> (\<forall>acc. cand_body cs0 fl rot acc = Inr (acc @ [(ncs, rot, fl)]))"
proof -
  from rotate_times_nonempty[OF assms] obtain cs where
    cs: "rotate_times (nat (rot div 90)) cs0 = Inr cs" "cs \<noteq> []" by blast
  from normalize_nonempty[OF cs(2)] obtain ncs where ncs: "normalize cs = Inr ncs" by blast
  from normalize_idem[OF ncs] cs(1) ncs show ?thesis
    by (intro exI[of _ ncs]) (simp add: cand_body_def)
qed

lemma cand_rots:
  assumes "cs0 \<noteq> []"
  shows "\<exists>n0 n1 n2 n3.
           normalize n0 = Inr n0 \<and> normalize n1 = Inr n1
         \<and> normalize n2 = Inr n2 \<and> normalize n3 = Inr n3
         \<and> (\<forall>acc. for_each (cand_body cs0 fl) [0, 90, 180, 270] acc
                = Inr (acc @ [(n0, 0, fl), (n1, 90, fl), (n2, 180, fl), (n3, 270, fl)]))"
proof -
  from cand_body_step[OF assms, of fl 0] obtain n0 where
    n0: "normalize n0 = Inr n0" "\<And>acc. cand_body cs0 fl 0 acc = Inr (acc @ [(n0, 0, fl)])" by blast
  from cand_body_step[OF assms, of fl 90] obtain n1 where
    n1: "normalize n1 = Inr n1" "\<And>acc. cand_body cs0 fl 90 acc = Inr (acc @ [(n1, 90, fl)])" by blast
  from cand_body_step[OF assms, of fl 180] obtain n2 where
    n2: "normalize n2 = Inr n2" "\<And>acc. cand_body cs0 fl 180 acc = Inr (acc @ [(n2, 180, fl)])" by blast
  from cand_body_step[OF assms, of fl 270] obtain n3 where
    n3: "normalize n3 = Inr n3" "\<And>acc. cand_body cs0 fl 270 acc = Inr (acc @ [(n3, 270, fl)])" by blast
  show ?thesis
    using n0 n1 n2 n3 by (intro exI[of _ n0] exI[of _ n1] exI[of _ n2] exI[of _ n3]) simp
qed

lemma candidates_nonempty:
  assumes "grid_to_coords g \<noteq> []"
  shows "\<exists>cands. candidates g = Inr cands
           \<and> map snd cands = [(0, False), (90, False), (180, False), (270, False),
                              (0, True), (90, True), (180, True), (270, True)]
           \<and> (\<forall>c \<in> set cands. normalize (fst c) = Inr (fst c))"
proof -
  let ?base = "grid_to_coords g"
  from flip_nonempty[OF assms] obtain fb where fb: "flip ?base = Inr fb" "fb \<noteq> []" by blast
  from cand_rots[OF assms, of False] obtain a0 a1 a2 a3 where
    a: "normalize a0 = Inr a0" "normalize a1 = Inr a1" "normalize a2 = Inr a2" "normalize a3 = Inr a3"
       "\<And>acc. for_each (cand_body ?base False) [0, 90, 180, 270] acc
                = Inr (acc @ [(a0, 0, False), (a1, 90, False), (a2, 180, False), (a3, 270, False)])"
    by blast
  from cand_rots[OF fb(2), of True] obtain b0 b1 b2 b3 where
    b: "normalize b0 = Inr b0" "normalize b1 = Inr b1" "normalize b2 = Inr b2" "normalize b3 = Inr b3"
       "\<And>acc. for_each (cand_body fb True) [0, 90, 180, 270] acc
                = Inr (acc @ [(b0, 0, True), (b1, 90, True), (b2, 180, True), (b3, 270, True)])"
    by blast
  have "candidates g = Inr [(a0, 0, False), (a1, 90, False), (a2, 180, False), (a3, 270, False),
                            (b0, 0, True), (b1, 90, True), (b2, 180, True), (b3, 270, True)]"
  proof -
    have 1: "cand_flip_body ?base False [] =
        Inr [(a0, 0, False), (a1, 90, False), (a2, 180, False), (a3, 270, False)]"
      by (simp add: cand_flip_body_def a(5) del: for_each.simps)
    have 2: "\<And>acc. cand_flip_body ?base True acc =
        Inr (acc @ [(b0, 0, True), (b1, 90, True), (b2, 180, True), (b3, 270, True)])"
      by (simp add: cand_flip_body_def fb(1) b(5) del: for_each.simps)
    show ?thesis by (simp add: candidates_def 1 2)
  qed
  with a(1-4) b(1-4) show ?thesis by simp
qed

lemma candidates_empty:
  assumes "grid_to_coords g = []"
  shows "candidates g = Inl ValueError" "all_transforms g = Inl ValueError"
proof -
  show "candidates g = Inl ValueError"
    by (simp add: candidates_def cand_flip_body_def cand_body_def assms normalize_Nil)
  then show "all_transforms g = Inl ValueError"
    by (simp add: all_transforms_candidates)
qed

lemma shift_by_0: "shift_by 0 0 S = S"
  by (simp add: shift_by_def)

lemma shift_by_shift_by: "shift_by a b (shift_by a' b' S) = shift_by (a + a') (b + b') S"
  by (simp add: shift_by_def image_image ac_simps)

lemma shift_by_finite: "finite S \<Longrightarrow> finite (shift_by a b S)"
  by (simp add: shift_by_def)

lemma shift_by_empty: "shift_by a b S = {} \<longleftrightarrow> S = {}"
  by (simp add: shift_by_def)

lemma Min_shift_by:
  assumes "finite S" "S \<noteq> {}"
  shows "Min (fst ` shift_by a b S) = Min (fst ` S) + a"
    and "Min (snd ` shift_by a b S) = Min (snd ` S) + b"
proof -
  have "fst ` shift_by a b S = (\<lambda>rc. fst rc + a) ` S" "snd ` shift_by a b S = (\<lambda>rc. snd rc + b) ` S"
    by (simp_all add: shift_by_def image_image)
  then show "Min (fst ` shift_by a b S) = Min (fst ` S) + a"
    "Min (snd ` shift_by a b S) = Min (snd ` S) + b"
    using Min_add_commute[OF assms] by simp_all
qed

lemma origin_shift_shift_by:
  assumes "finite S" "S \<noteq> {}"
  shows "origin_shift (shift_by a b S) = origin_shift S"
  by (simp add: origin_shift_def Min_shift_by[OF assms] shift_by_shift_by)

lemma quarter_turn_shift_by:
  "quarter_turn ` shift_by a b S = shift_by b (- a) (quarter_turn ` S)"
  by (simp add: shift_by_def quarter_turn_def image_image)

lemma turn_Suc: "(quarter_turn ^^ Suc k) ` X = quarter_turn ` ((quarter_turn ^^ k) ` X)"
  by (simp add: image_image)

lemma turn_Suc_right: "(quarter_turn ^^ Suc k) ` X = (quarter_turn ^^ k) ` (quarter_turn ` X)"
  by (simp add: image_image funpow_swap1)

lemma turns_shift_by:
  "\<exists>a' b'. (quarter_turn ^^ k) ` shift_by a b S = shift_by a' b' ((quarter_turn ^^ k) ` S)"
proof (induction k)
  case 0
  show ?case by auto
next
  case (Suc k)
  then obtain a' b' where
    e: "(quarter_turn ^^ k) ` shift_by a b S = shift_by a' b' ((quarter_turn ^^ k) ` S)" by blast
  have "(quarter_turn ^^ Suc k) ` shift_by a b S
      = quarter_turn ` shift_by a' b' ((quarter_turn ^^ k) ` S)"
    unfolding turn_Suc e ..
  also have "\<dots> = shift_by b' (- a') ((quarter_turn ^^ Suc k) ` S)"
    unfolding turn_Suc quarter_turn_shift_by ..
  finally show ?case by blast
qed

lemma rotate_geo:
  assumes "cs \<noteq> []"
  shows "\<exists>cs'. rotate cs = Inr cs' \<and> cs' \<noteq> []
           \<and> set cs' = shift_by 0 (Max (set (map fst cs))) (quarter_turn ` set cs)
           \<and> (distinct cs \<longrightarrow> distinct cs')"
proof -
  let ?m = "Max (set (map fst cs))"
  let ?f = "\<lambda>(r, c). (c, ?m + 1 - 1 - r)"
  have r: "rotate cs = Inr (map ?f cs)" using assms by (simp add: rotate_def py_max_Max Let_def)
  have "inj_on ?f (set cs)" by (auto simp: inj_on_def)
  then have d: "distinct cs \<longrightarrow> distinct (map ?f cs)"
    by (simp add: distinct_map)
  have s: "set (map ?f cs) = shift_by 0 ?m (quarter_turn ` set cs)"
    by (auto simp: shift_by_def quarter_turn_def image_image case_prod_beta)
  from r d s assms show ?thesis by simp
qed

lemma flip_geo:
  assumes "cs \<noteq> []"
  shows "\<exists>cs'. flip cs = Inr cs' \<and> cs' \<noteq> []
           \<and> set cs' = shift_by 0 (Max (set (map snd cs))) (mirror ` set cs)
           \<and> (distinct cs \<longrightarrow> distinct cs')"
proof -
  let ?m = "Max (set (map snd cs))"
  let ?f = "\<lambda>(r, c). (r, ?m + 1 - 1 - c)"
  have r: "flip cs = Inr (map ?f cs)" using assms by (simp add: flip_def py_max_Max Let_def)
  have "inj_on ?f (set cs)" by (auto simp: inj_on_def)
  then have d: "distinct cs \<longrightarrow> distinct (map ?f cs)"
    by (simp add: distinct_map)
  have s: "set (map ?f cs) = shift_by 0 ?m (mirror ` set cs)"
    by (auto simp: shift_by_def mirror_def image_image case_prod_beta)
  from r d s assms show ?thesis by simp
qed

lemma rotate_times_geo:
  assumes "cs \<noteq> []"
  shows "\<exists>cs' a b. rotate_times k cs = Inr cs' \<and> cs' \<noteq> []
           \<and> set cs' = shift_by a b ((quarter_turn ^^ k) ` set cs)
           \<and> (distinct cs \<longrightarrow> distinct cs')"
  using assms
proof (induction k arbitrary: cs)
  case 0
  have "set cs = shift_by 0 0 ((quarter_turn ^^ 0) ` set cs)" by (simp add: shift_by_0)
  with 0 show ?case by (intro exI[of _ cs] exI[of _ 0]) simp
next
  case (Suc k)
  from rotate_geo[OF Suc.prems] obtain c1 m where
    c1: "rotate cs = Inr c1" "c1 \<noteq> []" "set c1 = shift_by 0 m (quarter_turn ` set cs)"
      "distinct cs \<longrightarrow> distinct c1" by blast
  from Suc.IH[OF c1(2)] obtain cs' a b where
    r: "rotate_times k c1 = Inr cs'" "cs' \<noteq> []"
      "set cs' = shift_by a b ((quarter_turn ^^ k) ` set c1)" "distinct c1 \<longrightarrow> distinct cs'"
    by blast
  from turns_shift_by[of k 0 m "quarter_turn ` set cs"] obtain a' b' where
    t: "(quarter_turn ^^ k) ` shift_by 0 m (quarter_turn ` set cs)
          = shift_by a' b' ((quarter_turn ^^ k) ` (quarter_turn ` set cs))" by blast
  have "set cs' = shift_by (a + a') (b + b') ((quarter_turn ^^ Suc k) ` set cs)"
    unfolding r(3) c1(3) t shift_by_shift_by turn_Suc_right ..
  moreover have "rotate_times (Suc k) cs = Inr cs'" by (simp add: c1(1) r(1))
  ultimately show ?case using r(2,4) c1(4) by blast
qed

lemma normalize_geo:
  assumes "cs \<noteq> []"
  shows "\<exists>n. normalize cs = Inr n \<and> set n = origin_shift (set cs) \<and> sorted n
           \<and> (distinct cs \<longrightarrow> distinct n)"
proof -
  let ?mr = "Min (set (map fst cs))" and ?mc = "Min (set (map snd cs))"
  let ?f = "\<lambda>(r, c). (r - ?mr, c - ?mc)"
  from assms have n: "normalize cs = Inr (sort (map ?f cs))"
    by (simp add: normalize_def py_min_Min)
  have "inj_on ?f (set cs)" by (auto simp: inj_on_def)
  then have d: "distinct cs \<longrightarrow> distinct (sort (map ?f cs))"
    by (simp add: distinct_map)
  have s: "set (sort (map ?f cs)) = origin_shift (set cs)"
    by (auto simp: origin_shift_def shift_by_def image_image case_prod_beta)
  have "sorted (sort (map ?f cs))" by simp
  with n d s show ?thesis by simp
qed

lemma row_coords_distinct:
  "distinct (map (\<lambda>(c, v). (int r, int c)) (filter (\<lambda>(c, v). v \<noteq> (0::int)) (enumerate 0 row)))"
proof -
  have "inj_on (\<lambda>(c, v). (int r, int c)) (set (filter (\<lambda>(c, v). v \<noteq> 0) (enumerate 0 row)))"
    by (auto simp: inj_on_def in_set_enumerate_eq)
  then show ?thesis by (simp add: distinct_map)
qed

lemma grid_rows_distinct:
  "distinct (concat (map (\<lambda>(r, row). map (\<lambda>(c, v). (int r, int c))
                                   (filter (\<lambda>(c, v). v \<noteq> (0::int)) (enumerate 0 row)))
                 (enumerate n g)))
   \<and> (\<forall>p \<in> set (concat (map (\<lambda>(r, row). map (\<lambda>(c, v). (int r, int c))
                                   (filter (\<lambda>(c, v). v \<noteq> 0) (enumerate 0 row)))
                 (enumerate n g))). int n \<le> fst p)"
proof (induction g arbitrary: n)
  case Nil
  show ?case by simp
next
  case (Cons row g)
  let ?R = "\<lambda>(r, row). map (\<lambda>(c, v). (int r, int c))
                                   (filter (\<lambda>(c, v). v \<noteq> (0::int)) (enumerate 0 row))"
  let ?rest = "concat (map ?R (enumerate (Suc n) g))"
  have step: "concat (map ?R (enumerate n (row # g))) = ?R (n, row) @ ?rest" by simp
  have d1: "distinct (?R (n, row))" using row_coords_distinct[of n row] by simp
  have f1: "\<forall>p \<in> set (?R (n, row)). fst p = int n" by auto
  from Cons.IH[of "Suc n"] have d2: "distinct ?rest"
    and f2: "\<forall>p \<in> set ?rest. int (Suc n) \<le> fst p" by blast+
  have disj: "set (?R (n, row)) \<inter> set ?rest = {}"
  proof (rule ccontr)
    assume "set (?R (n, row)) \<inter> set ?rest \<noteq> {}"
    then obtain p where "p \<in> set (?R (n, row))" "p \<in> set ?rest" by blast
    with f1 f2 have "fst p = int n" "int (Suc n) \<le> fst p" by blast+
    then show False by simp
  qed
  have "distinct (?R (n, row) @ ?rest)" using d1 d2 disj by simp
  moreover have "\<forall>p \<in> set (?R (n, row) @ ?rest). int n \<le> fst p"
  proof
    fix p assume "p \<in> set (?R (n, row) @ ?rest)"
    then have "p \<in> set (?R (n, row)) \<or> p \<in> set ?rest" by simp
    with f1 f2 have "fst p = int n \<or> int (Suc n) \<le> fst p" by blast
    then show "int n \<le> fst p" by auto
  qed
  ultimately show ?case unfolding step by blast
qed

lemma grid_to_coords_distinct: "distinct (grid_to_coords g)"
  using grid_rows_distinct[of 0 g] by (simp add: grid_to_coords_def)

lemma cand_body_geo:
  assumes "cs0 \<noteq> []" "distinct cs0" "set cs0 = shift_by a b X" "finite X" "X \<noteq> {}"
  shows "\<exists>ncs. (normalize ncs = Inr ncs \<and> sorted ncs \<and> distinct ncs
                \<and> set ncs = origin_shift ((quarter_turn ^^ nat (rot div 90)) ` X))
           \<and> (\<forall>acc. cand_body cs0 fl rot acc = Inr (acc @ [(ncs, rot, fl)]))"
proof -
  let ?k = "nat (rot div 90)"
  let ?Y = "(quarter_turn ^^ ?k) ` X"
  from rotate_times_geo[OF assms(1), of ?k] assms(2) obtain cs a1 b1 where
    cs: "rotate_times ?k cs0 = Inr cs" "cs \<noteq> []"
      "set cs = shift_by a1 b1 ((quarter_turn ^^ ?k) ` set cs0)" "distinct cs" by blast
  from turns_shift_by[of ?k a b X] obtain a' b' where
    t: "(quarter_turn ^^ ?k) ` shift_by a b X = shift_by a' b' ?Y" by blast
  have sc: "set cs = shift_by (a1 + a') (b1 + b') ?Y"
    unfolding cs(3) assms(3) t shift_by_shift_by ..
  from normalize_geo[OF cs(2)] cs(4) obtain ncs where
    n: "normalize cs = Inr ncs" "set ncs = origin_shift (set cs)" "sorted ncs" "distinct ncs"
    by blast
  have fY: "finite ?Y" "?Y \<noteq> {}" using assms(4,5) by simp_all
  have sn: "set ncs = origin_shift ?Y"
    unfolding n(2) sc by (rule origin_shift_shift_by[OF fY])
  from normalize_idem[OF n(1)] have idem: "normalize ncs = Inr ncs" by simp
  have "\<forall>acc. cand_body cs0 fl rot acc = Inr (acc @ [(ncs, rot, fl)])"
    by (simp add: cand_body_def cs(1) n(1))
  with idem n(3,4) sn show ?thesis by blast
qed

lemma cand_rots_geo:
  assumes "cs0 \<noteq> []" "distinct cs0" "set cs0 = shift_by a b X" "finite X" "X \<noteq> {}"
  defines "P \<equiv> \<lambda>ncs rot. normalize ncs = Inr ncs \<and> sorted ncs \<and> distinct ncs
                \<and> set ncs = origin_shift ((quarter_turn ^^ nat (rot div 90)) ` X)"
  shows "\<exists>n0 n1 n2 n3. P n0 0 \<and> P n1 90 \<and> P n2 180 \<and> P n3 270
         \<and> (\<forall>acc. for_each (cand_body cs0 fl) [0, 90, 180, 270] acc
                = Inr (acc @ [(n0, 0, fl), (n1, 90, fl), (n2, 180, fl), (n3, 270, fl)]))"
proof -
  note step = cand_body_geo[OF assms(1-5)]
  from step[of 0 fl] obtain n0 where
    n0: "P n0 0" "\<And>acc. cand_body cs0 fl 0 acc = Inr (acc @ [(n0, 0, fl)])"
    unfolding P_def by blast
  from step[of 90 fl] obtain n1 where
    n1: "P n1 90" "\<And>acc. cand_body cs0 fl 90 acc = Inr (acc @ [(n1, 90, fl)])"
    unfolding P_def by blast
  from step[of 180 fl] obtain n2 where
    n2: "P n2 180" "\<And>acc. cand_body cs0 fl 180 acc = Inr (acc @ [(n2, 180, fl)])"
    unfolding P_def by blast
  from step[of 270 fl] obtain n3 where
    n3: "P n3 270" "\<And>acc. cand_body cs0 fl 270 acc = Inr (acc @ [(n3, 270, fl)])"
    unfolding P_def by blast
  have "\<forall>acc. for_each (cand_body cs0 fl) [0, 90, 180, 270] acc
                = Inr (acc @ [(n0, 0, fl), (n1, 90, fl), (n2, 180, fl), (n3, 270, fl)])"
    by (simp add: n0(2) n1(2) n2(2) n3(2))
  with n0(1) n1(1) n2(1) n3(1) show ?thesis by blast
qed

lemma candidates_oriented:
  assumes ne: "grid_to_coords g \<noteq> []"
  shows "\<exists>cands. candidates g = Inr cands
           \<and> map snd cands = [(0, False), (90, False), (180, False), (270, False),
                              (0, True), (90, True), (180, True), (270, True)]
           \<and> (\<forall>c \<in> set cands. normalize (fst c) = Inr (fst c) \<and> sorted (fst c) \<and> distinct (fst c)
                 \<and> set (fst c) = oriented (set (grid_to_coords g)) (fst (snd c)) (snd (snd c)))"
proof -
  let ?base = "grid_to_coords g"
  let ?S = "set ?base"
  define Q where "Q = (\<lambda>c :: transform. normalize (fst c) = Inr (fst c) \<and> sorted (fst c)
      \<and> distinct (fst c) \<and> set (fst c) = oriented ?S (fst (snd c)) (snd (snd c)))"
  have d: "distinct ?base" by (rule grid_to_coords_distinct)
  have fS: "finite ?S" "?S \<noteq> {}" using ne by simp_all
  from flip_geo[OF ne] d obtain fb m where
    fb: "flip ?base = Inr fb" "fb \<noteq> []" "set fb = shift_by 0 m (mirror ` ?S)" "distinct fb"
    by blast
  have fM: "finite (mirror ` ?S)" "mirror ` ?S \<noteq> {}" using ne by simp_all
  have s0: "?S = shift_by 0 0 ?S" by (simp add: shift_by_0)
  from cand_rots_geo[OF ne d s0 fS, of False] obtain a0 a1 a2 a3 where
    a: "Q (a0, 0, False)" "Q (a1, 90, False)" "Q (a2, 180, False)" "Q (a3, 270, False)"
       "\<And>acc. for_each (cand_body ?base False) [0, 90, 180, 270] acc
                = Inr (acc @ [(a0, 0, False), (a1, 90, False), (a2, 180, False), (a3, 270, False)])"
    unfolding Q_def oriented_def by auto
  from cand_rots_geo[OF fb(2) fb(4) fb(3) fM, of True] obtain b0 b1 b2 b3 where
    b: "Q (b0, 0, True)" "Q (b1, 90, True)" "Q (b2, 180, True)" "Q (b3, 270, True)"
       "\<And>acc. for_each (cand_body fb True) [0, 90, 180, 270] acc
                = Inr (acc @ [(b0, 0, True), (b1, 90, True), (b2, 180, True), (b3, 270, True)])"
    unfolding Q_def oriented_def by auto
  let ?cands = "[(a0, 0::int, False), (a1, 90, False), (a2, 180, False), (a3, 270, False),
                 (b0, 0, True), (b1, 90, True), (b2, 180, True), (b3, 270, True)]"
  have c: "candidates g = Inr ?cands"
  proof -
    have 1: "cand_flip_body ?base False [] =
        Inr [(a0, 0, False), (a1, 90, False), (a2, 180, False), (a3, 270, False)]"
      by (simp add: cand_flip_body_def a(5) del: for_each.simps)
    have 2: "\<And>acc. cand_flip_body ?base True acc =
        Inr (acc @ [(b0, 0, True), (b1, 90, True), (b2, 180, True), (b3, 270, True)])"
      by (simp add: cand_flip_body_def fb(1) b(5) del: for_each.simps)
    show ?thesis by (simp add: candidates_def 1 2)
  qed
  have m: "map snd ?cands = [(0, False), (90, False), (180, False), (270, False),
                              (0, True), (90, True), (180, True), (270, True)]" by simp
  have q: "\<forall>c \<in> set ?cands. Q c" using a(1-4) b(1-4) by simp
  show ?thesis
    by (intro exI[of _ ?cands] conjI) (rule c, rule m, rule q[unfolded Q_def])
qed

lemma first_seen_map_key:
  assumes "inj_on k (fst ` set xs)"
  shows "first_seen (map (\<lambda>x. (k (fst x), snd x)) xs) = map (\<lambda>x. (k (fst x), snd x)) (first_seen xs)"
  using assms
proof (induction xs rule: rev_induct)
  case Nil
  show ?case by simp
next
  case (snoc x xs)
  let ?f = "\<lambda>x. (k (fst x), snd x)"
  from snoc.prems have inj: "inj_on k (fst ` set xs)" by (simp add: inj_on_def)
  have img: "fst ` set (map ?f xs) = k ` (fst ` set xs)" by (simp add: image_image)
  have mem: "(k (fst x) \<in> fst ` set (map ?f xs)) = (fst x \<in> fst ` set xs)"
    unfolding img by (rule inj_on_image_mem_iff[OF snoc.prems]) auto
  have "first_seen (map ?f (xs @ [x])) = first_seen (map ?f xs @ [?f x])" by simp
  also have "\<dots> = first_seen (map ?f xs) @ (if fst x \<in> fst ` set xs then [] else [?f x])"
    unfolding first_seen_snoc using mem by simp
  also have "\<dots> = map ?f (first_seen (xs @ [x]))"
    unfolding first_seen_snoc snoc.IH[OF inj] by simp
  finally show ?case .
qed

text \<open>
  Claim C6. For every piece shape with at least one filled cell, \<open>all_transforms\<close> runs
  through 8 candidates: flip False then True, and for each the rotations 0, 90, 180, 270.
  The candidate for a flip and a rotation is the sorted, duplicate-free list of the cells of
  the shape mirrored (when flipped), turned by the rotation and normalized. A candidate is
  kept exactly when its coordinate set has not occurred earlier in the enumeration. The
  sequence returned has between 1 and 8 orientations; their coordinate sets are pairwise
  distinct, as sets of cells, and each is normalized. Any two runs on the same shape return
  the same sequence: \<open>all_transforms\<close> reads and writes nothing but its argument and its
  own locals.
\<close>

theorem all_transforms_first_seen:
  assumes "grid_to_coords g \<noteq> []"
  shows "\<exists>cands ts. candidates g = Inr cands
           \<and> map snd cands = [(0, False), (90, False), (180, False), (270, False),
                              (0, True), (90, True), (180, True), (270, True)]
           \<and> (\<forall>c \<in> set cands. sorted (fst c) \<and> distinct (fst c)
                 \<and> set (fst c) = oriented (set (grid_to_coords g)) (fst (snd c)) (snd (snd c)))
           \<and> all_transforms g = Inr ts
           \<and> (\<forall>ts'. all_transforms g = Inr ts' \<longrightarrow> ts' = ts)
           \<and> ts = first_seen cands
           \<and> map (\<lambda>t. (set (fst t), snd t)) ts
                = first_seen (map (\<lambda>c. (set (fst c), snd c)) cands)
           \<and> 1 \<le> length ts \<and> length ts \<le> 8
           \<and> distinct (map fst ts)
           \<and> distinct (map (\<lambda>t. set (fst t)) ts)
           \<and> (\<forall>t \<in> set ts. origin_shift (set (fst t)) = set (fst t))
           \<and> (\<forall>t \<in> set ts. normalize (fst t) = Inr (fst t))"
proof -
  from candidates_oriented[OF assms] obtain cands where
    c: "candidates g = Inr cands"
       "map snd cands = [(0, False), (90, False), (180, False), (270, False),
                         (0, True), (90, True), (180, True), (270, True)]"
    and q: "\<forall>c \<in> set cands. normalize (fst c) = Inr (fst c) \<and> sorted (fst c) \<and> distinct (fst c)
                 \<and> set (fst c) = oriented (set (grid_to_coords g)) (fst (snd c)) (snd (snd c))"
    by (elim exE conjE)
  from q have c3: "\<forall>c \<in> set cands. normalize (fst c) = Inr (fst c)" by blast
  from q have geo: "\<forall>c \<in> set cands. sorted (fst c) \<and> distinct (fst c)
                 \<and> set (fst c) = oriented (set (grid_to_coords g)) (fst (snd c)) (snd (snd c))"
    by blast
  have "length (map snd cands) = 8" by (simp only: c(2)) simp
  then have len: "length cands = 8" by simp
  then have ne: "cands \<noteq> []" by auto
  let ?ts = "first_seen cands"
  let ?f = "\<lambda>c :: transform. (set (fst c), snd c)"
  have t: "all_transforms g = Inr ?ts" by (simp add: all_transforms_candidates c(1))
  have det: "\<forall>ts'. all_transforms g = Inr ts' \<longrightarrow> ts' = ?ts" by (simp add: t)
  have l1: "1 \<le> length ?ts" using first_seen_nonempty[OF ne] by (cases ?ts) simp_all
  have l2: "length ?ts \<le> 8" using first_seen_length[of cands] len by simp
  have sub: "set ?ts \<subseteq> set cands" by (rule first_seen_subset)
  have n: "\<forall>t \<in> set ?ts. normalize (fst t) = Inr (fst t)" using c3 sub by blast
  have inj: "inj_on set (fst ` set cands)"
  proof (rule inj_onI)
    fix xs ys assume "xs \<in> fst ` set cands" "ys \<in> fst ` set cands" "set xs = set ys"
    with q have "sorted xs" "distinct xs" "sorted ys" "distinct ys" "set xs = set ys" by auto
    then show "xs = ys" by (rule sorted_distinct_set_unique)
  qed
  have key: "map ?f ?ts = first_seen (map ?f cands)"
    by (rule first_seen_map_key[OF inj, symmetric])
  have "distinct (map fst (first_seen (map ?f cands)))" by (rule first_seen_distinct)
  then have "distinct (map fst (map ?f ?ts))" by (simp only: key)
  then have ds: "distinct (map (\<lambda>t. set (fst t)) ?ts)" by (simp add: comp_def)
  have fixpt: "\<forall>t \<in> set ?ts. origin_shift (set (fst t)) = set (fst t)"
  proof
    fix t assume "t \<in> set ?ts"
    with n have nt: "normalize (fst t) = Inr (fst t)" by blast
    then have "fst t \<noteq> []" by (auto simp: normalize_Nil)
    from normalize_geo[OF this] nt show "origin_shift (set (fst t)) = set (fst t)" by auto
  qed
  show ?thesis
  proof (intro exI conjI)
    show "candidates g = Inr cands" by (rule c(1))
    show "map snd cands = [(0, False), (90, False), (180, False), (270, False),
                           (0, True), (90, True), (180, True), (270, True)]" by (rule c(2))
    show "\<forall>c \<in> set cands. sorted (fst c) \<and> distinct (fst c)
                 \<and> set (fst c) = oriented (set (grid_to_coords g)) (fst (snd c)) (snd (snd c))"
      by (rule geo)
    show "all_transforms g = Inr ?ts" by (rule t)
    show "\<forall>ts'. all_transforms g = Inr ts' \<longrightarrow> ts' = ?ts" by (rule det)
    show "?ts = first_seen cands" by (rule refl)
    show "map ?f ?ts = first_seen (map ?f cands)" by (rule key)
    show "1 \<le> length ?ts" by (rule l1)
    show "length ?ts \<le> 8" by (rule l2)
    show "distinct (map fst ?ts)" by (rule first_seen_distinct)
    show "distinct (map (\<lambda>t. set (fst t)) ?ts)" by (rule ds)
    show "\<forall>t \<in> set ?ts. origin_shift (set (fst t)) = set (fst t)" by (rule fixpt)
    show "\<forall>t \<in> set ?ts. normalize (fst t) = Inr (fst t)" by (rule n)
  qed
qed


lemma PIECES_nonempty: "\<forall>p \<in> set PIECES. grid_to_coords (snd p) \<noteq> []"
  by (simp add: PIECES_def grid_to_coords_def enumerate_eq_zip)


theorem all_transforms_first_seen_witness:
  "grid_to_coords [[1,1,0],[0,1,0],[0,1,1]] \<noteq> []
   \<and> (\<exists>cands ts. candidates [[1,1,0],[0,1,0],[0,1,1]] = Inr cands
        \<and> all_transforms [[1,1,0],[0,1,0],[0,1,1]] = Inr ts
        \<and> ts = first_seen cands
        \<and> 1 \<le> length ts \<and> length ts \<le> 8
        \<and> distinct (map fst ts)
        \<and> distinct (map (\<lambda>t. set (fst t)) ts))"
proof -
  have ne: "grid_to_coords [[1,1,0],[0,1,0],[0,1,1]] \<noteq> []"
    by (simp add: grid_to_coords_def enumerate_eq_zip)
  from all_transforms_first_seen[OF ne] obtain cands ts where
    r: "candidates [[1,1,0],[0,1,0],[0,1,1]] = Inr cands"
    "all_transforms [[1,1,0],[0,1,0],[0,1,1]] = Inr ts" "ts = first_seen cands"
    "1 \<le> length ts" "length ts \<le> 8" "distinct (map fst ts)"
    "distinct (map (\<lambda>t. set (fst t)) ts)"
    by (elim exE conjE)
  show ?thesis
  proof (rule conjI[OF ne], rule exI[of _ cands], rule exI[of _ ts], intro conjI)
    show "candidates [[1,1,0],[0,1,0],[0,1,1]] = Inr cands" by (rule r(1))
    show "all_transforms [[1,1,0],[0,1,0],[0,1,1]] = Inr ts" by (rule r(2))
    show "ts = first_seen cands" by (rule r(3))
    show "1 \<le> length ts" by (rule r(4))
    show "length ts \<le> 8" by (rule r(5))
    show "distinct (map fst ts)" by (rule r(6))
    show "distinct (map (\<lambda>t. set (fst t)) ts)" by (rule r(7))
  qed
qed

section \<open>The placements generated\<close>

lemma all_transforms_PIECES:
  "map (\<lambda>(name, grid). (name, all_transforms grid)) PIECES
   = map (\<lambda>(name, ts). (name, Inr ts)) PIECE_TRANSFORMS"
  by code_simp

lemma PIECE_TRANSFORMS_ok:
  "\<forall>nt \<in> set PIECE_TRANSFORMS. \<forall>t \<in> set (snd nt).
     orientation_ok (fst t) \<and> length (fst t) = (if fst nt = ''E'' then 6 else 5)"
  by (simp add: PIECE_TRANSFORMS_def orientation_ok_def)

lemma PIECES_cells:
  "\<forall>p \<in> set PIECES. length (grid_to_coords (snd p)) = (if fst p = ''E'' then 6 else 5)"
  by (simp add: PIECES_def grid_to_coords_def enumerate_eq_zip)


lemma for_each_appends:
  assumes "\<And>x res. x \<in> set xs \<Longrightarrow> body x res = Inr (res @ out x)"
  shows "for_each body xs res = Inr (res @ concat (map out xs))"
  using assms
proof (induction xs arbitrary: res)
  case Nil show ?case by simp
next
  case (Cons x xs)
  have "body x res = Inr (res @ out x)" using Cons.prems by simp
  moreover have "for_each body xs (res @ out x) = Inr ((res @ out x) @ concat (map out xs))"
    using Cons.prems by (intro Cons.IH) simp
  ultimately show ?case by simp
qed

lemma py_index_ROW_WIDTHS:
  "0 \<le> r \<Longrightarrow> r < 7 \<Longrightarrow> py_index ROW_WIDTHS r = Inr (ROW_WIDTHS ! nat r)"
  by (simp add: py_index_def ROW_WIDTHS_def)

lemma py_lookup_CELL_TO_COL:
  assumes "0 \<le> r" "r < 7" "0 \<le> c" "c < ROW_WIDTHS ! nat r"
  shows "py_lookup CELL_TO_COL (r, c) = Inr (the (CELL_TO_COL (r, c)))"
proof -
  have "valid_cell (r, c)" using assms by (simp add: valid_cell_def ROW_WIDTHS_def)
  from CELL_TO_COL_valid[OF this] show ?thesis by (auto simp: py_lookup_def)
qed

lemma place_cells_char:
  assumes "\<forall>rc \<in> set coords. 0 \<le> tr + fst rc \<and> tr + fst rc < 7 \<and> 0 \<le> tc + snd rc"
  shows "place_cells ex tr tc coords acc
         = Inr (if fits ex coords tr tc then Some (acc @ cell_idxs coords tr tc) else None)"
  using assms
proof (induction coords arbitrary: acc)
  case Nil show ?case by (simp add: fits_def cell_idxs_def)
next
  case (Cons rc coords)
  obtain pr pc where rc: "rc = (pr, pc)" by (cases rc)
  from Cons.prems rc have r: "0 \<le> tr + pr" "tr + pr < 7" "0 \<le> tc + pc" by simp_all
  have rest: "\<forall>rc \<in> set coords. 0 \<le> tr + fst rc \<and> tr + fst rc < 7 \<and> 0 \<le> tc + snd rc"
    using Cons.prems by simp
  note w = py_index_ROW_WIDTHS[OF r(1,2)]
  show ?case
  proof (cases "tc + pc < ROW_WIDTHS ! nat (tr + pr) \<and> (tr + pr, tc + pc) \<notin> ex")
    case False
    then show ?thesis by (auto simp: rc w fits_def Let_def)
  next
    case True
    then have l: "py_lookup CELL_TO_COL (tr + pr, tc + pc) = Inr (the (CELL_TO_COL (tr + pr, tc + pc)))"
      using r by (intro py_lookup_CELL_TO_COL) simp_all
    have f: "fits ex ((pr, pc) # coords) tr tc = fits ex coords tr tc"
      using True by (simp add: fits_def)
    show ?thesis
      using True by (simp add: rc w l Cons.IH[OF rest] f Let_def) (simp add: cell_idxs_def)
  qed
qed

lemma anchor_body_char:
  assumes "\<forall>rc \<in> set (fst t). 0 \<le> tr + fst rc \<and> tr + fst rc < 7 \<and> 0 \<le> tc + snd rc"
  shows "anchor_body ex name t tr tc res = Inr (res @ placements_at ex name t tr tc)"
proof -
  obtain coords rot fl where t: "t = (coords, rot, fl)" by (cases t)
  with assms have "place_cells ex tr tc coords []
         = Inr (if fits ex coords tr tc then Some ([] @ cell_idxs coords tr tc) else None)"
    by (intro place_cells_char) simp
  then show ?thesis by (simp add: anchor_body_def placements_at_def t)
qed

lemma py_range_set: "set (py_range n) = {0..<n}"
  by (auto simp: py_range_def)

lemma orientation_max:
  assumes "orientation_ok coords" "rc \<in> set coords"
  shows "fst rc \<le> Max (fst ` set coords)" "snd rc \<le> Max (snd ` set coords)"
    "0 \<le> fst rc" "0 \<le> snd rc"
  using assms by (auto simp: orientation_ok_def)

lemma row_body_char:
  assumes ok: "orientation_ok (fst t)" and tr: "0 \<le> tr" "tr + Max (fst ` set (fst t)) < 7"
  shows "row_body ex name t (Max (snd ` set (fst t))) tr res
         = Inr (res @ concat (map (placements_at ex name t tr) (anchor_cols (fst t) tr)))"
proof -
  from ok obtain rc0 where "rc0 \<in> set (fst t)"
    by (cases "fst t") (auto simp: orientation_ok_def)
  from orientation_max(1,3)[OF ok this] have "0 \<le> Max (fst ` set (fst t))" by linarith
  with tr have "tr < 7" by simp
  note w = py_index_ROW_WIDTHS[OF tr(1) this]
  have "for_each (anchor_body ex name t tr) (anchor_cols (fst t) tr) res
        = Inr (res @ concat (map (placements_at ex name t tr) (anchor_cols (fst t) tr)))"
  proof (rule for_each_appends)
    fix tc res' assume "tc \<in> set (anchor_cols (fst t) tr)"
    then have tc: "0 \<le> tc" by (simp add: anchor_cols_def py_range_set)
    show "anchor_body ex name t tr tc res' = Inr (res' @ placements_at ex name t tr tc)"
    proof (rule anchor_body_char, rule ballI)
      fix rc assume rc: "rc \<in> set (fst t)"
      from orientation_max[OF ok rc] tr tc
      show "0 \<le> tr + fst rc \<and> tr + fst rc < 7 \<and> 0 \<le> tc + snd rc" by simp
    qed
  qed
  then show ?thesis by (simp add: row_body_def w anchor_cols_def)
qed

lemma transform_body_char:
  assumes ok: "orientation_ok (fst t)"
  shows "transform_body ex name t res = Inr (res @ placements_of ex name t)"
proof -
  obtain coords rot fl where t: "t = (coords, rot, fl)" by (cases t)
  from ok t have ne: "coords \<noteq> []" by (simp add: orientation_ok_def)
  have mr: "py_max (map fst coords) = Inr (Max (fst ` set coords))"
    and mc: "py_max (map snd coords) = Inr (Max (snd ` set coords))"
    using ne by (simp_all add: py_max_Max)
  have "for_each (row_body ex name t (Max (snd ` set coords))) (anchor_rows coords) res
        = Inr (res @ concat (map (\<lambda>tr. concat (map (placements_at ex name t tr) (anchor_cols coords tr)))
                                  (anchor_rows coords)))"
  proof (rule for_each_appends)
    fix tr res' assume "tr \<in> set (anchor_rows coords)"
    then have tr: "0 \<le> tr" "tr + Max (fst ` set (fst t)) < 7"
      by (simp_all add: anchor_rows_def py_range_set t ROW_WIDTHS_def)
    from row_body_char[OF ok tr, of ex name res']
    show "row_body ex name t (Max (snd ` set coords)) tr res'
          = Inr (res' @ concat (map (placements_at ex name t tr) (anchor_cols coords tr)))"
      by (simp add: t)
  qed
  then show ?thesis
    by (simp add: transform_body_def t mr mc placements_of_def anchor_rows_def)
qed


lemma PIECES_transforms:
  "list_all2 (\<lambda>p nt. fst p = fst nt \<and> all_transforms (snd p) = Inr (snd nt)) PIECES PIECE_TRANSFORMS"
proof -
  have "list_all2 (=) (map (\<lambda>(name, grid). (name, all_transforms grid)) PIECES)
          (map (\<lambda>(name, ts). (name, Inr ts)) PIECE_TRANSFORMS)"
    by (simp only: all_transforms_PIECES list.rel_eq)
  then show ?thesis
    by (simp add: list.rel_map case_prod_beta prod_eq_iff)
qed

lemma map_list_all2:
  assumes "list_all2 R xs ys" and "\<And>x y. R x y \<Longrightarrow> f x = g y"
  shows "map f xs = map g ys"
  using assms by (induction rule: list_all2_induct) simp_all

lemma piece_body_char:
  assumes "all_transforms grid = Inr ts" and "\<forall>t \<in> set ts. orientation_ok (fst t)"
  shows "piece_body ex (name, grid) res = Inr (res @ concat (map (placements_of ex name) ts))"
proof -
  have "for_each (transform_body ex name) ts res
        = Inr (res @ concat (map (placements_of ex name) ts))"
    by (rule for_each_appends) (simp add: transform_body_char assms(2))
  then show ?thesis by (simp add: piece_body_def assms(1))
qed

lemma generate_placements_eq: "generate_placements ex = Inr (generated ex)"
proof -
  let ?out = "\<lambda>p. concat (map (placements_of ex (fst p))
                 (case all_transforms (snd p) of Inr ts \<Rightarrow> ts | Inl e \<Rightarrow> []))"
  have rel: "\<And>p. p \<in> set PIECES \<Longrightarrow>
      \<exists>nt \<in> set PIECE_TRANSFORMS. fst p = fst nt \<and> all_transforms (snd p) = Inr (snd nt)"
    using PIECES_transforms by (metis (mono_tags, lifting) in_set_conv_nth list_all2_conv_all_nth)
  have "for_each (piece_body ex) PIECES [] = Inr ([] @ concat (map ?out PIECES))"
  proof (rule for_each_appends)
    fix p res assume "p \<in> set PIECES"
    from rel[OF this] obtain nt where nt: "nt \<in> set PIECE_TRANSFORMS" "fst p = fst nt"
      "all_transforms (snd p) = Inr (snd nt)" by blast
    have "\<forall>t \<in> set (snd nt). orientation_ok (fst t)"
      using PIECE_TRANSFORMS_ok nt(1) by blast
    from piece_body_char[OF nt(3) this, of ex "fst p" res] nt(3)
    show "piece_body ex p res = Inr (res @ ?out p)" by simp
  qed
  moreover have "map ?out PIECES
     = map (\<lambda>nt. concat (map (placements_of ex (fst nt)) (snd nt))) PIECE_TRANSFORMS"
    by (rule map_list_all2[OF PIECES_transforms]) simp
  ultimately show ?thesis by (simp add: generate_placements_def generated_def)
qed

lemma generated_iff:
  "p \<in> set (generated ex) \<longleftrightarrow>
     (\<exists>nt \<in> set PIECE_TRANSFORMS. \<exists>t \<in> set (snd nt).
        \<exists>tr \<in> set (anchor_rows (fst t)). \<exists>tc \<in> set (anchor_cols (fst t) tr).
          fits ex (fst t) tr tc
          \<and> p = Placement (fst nt) (cell_idxs (fst t) tr tc) (tr, tc) (fst (snd t)) (snd (snd t)))"
proof -
  have at: "\<And>name t tr tc. set (placements_at ex name t tr tc) =
      (if fits ex (fst t) tr tc
       then {Placement name (cell_idxs (fst t) tr tc) (tr, tc) (fst (snd t)) (snd (snd t))}
       else {})"
    by (simp add: placements_at_def case_prod_beta)
  show ?thesis
    unfolding generated_def placements_of_def
    by (simp add: at) blast
qed

lemma translated_cell_valid:
  assumes ok: "orientation_ok coords"
    and tr: "tr \<in> set (anchor_rows coords)" and tc: "tc \<in> set (anchor_cols coords tr)"
    and fit: "fits ex coords tr tc" and rc: "rc \<in> set coords"
  shows "valid_cell (tr + fst rc, tc + snd rc)" "(tr + fst rc, tc + snd rc) \<notin> ex"
proof -
  from tr have "0 \<le> tr" "tr + Max (fst ` set coords) < 7"
    by (simp_all add: anchor_rows_def py_range_set ROW_WIDTHS_def)
  moreover from tc have "0 \<le> tc" by (simp add: anchor_cols_def py_range_set)
  moreover note orientation_max[OF ok rc]
  moreover from fit rc have "tc + snd rc < ROW_WIDTHS ! nat (tr + fst rc)"
    and ne: "(tr + fst rc, tc + snd rc) \<notin> ex" by (auto simp: fits_def)
  ultimately show "valid_cell (tr + fst rc, tc + snd rc)"
    by (simp add: valid_cell_def ROW_WIDTHS_def)
  from ne show "(tr + fst rc, tc + snd rc) \<notin> ex" .
qed

lemma generated_squares:
  assumes ok: "orientation_ok coords"
    and tr: "tr \<in> set (anchor_rows coords)" and tc: "tc \<in> set (anchor_cols coords tr)"
    and fit: "fits ex coords tr tc"
  shows "\<forall>i \<in> set (cell_idxs coords tr tc). i < 43 \<and> BOARD_CELLS ! i \<notin> ex"
    and "distinct (cell_idxs coords tr tc)"
    and "length (cell_idxs coords tr tc) = length coords"
proof -
  let ?cell = "\<lambda>rc. (tr + fst rc, tc + snd rc)"
  let ?idx = "\<lambda>rc. the (CELL_TO_COL (?cell rc))"
  have at: "\<And>rc. rc \<in> set coords \<Longrightarrow>
     ?idx rc < 43 \<and> BOARD_CELLS ! ?idx rc = ?cell rc \<and> ?cell rc \<notin> ex"
  proof -
    fix rc assume rc: "rc \<in> set coords"
    note v = translated_cell_valid[OF ok tr tc fit rc]
    from CELL_TO_COL_valid[OF v(1)] v(2)
    show "?idx rc < 43 \<and> BOARD_CELLS ! ?idx rc = ?cell rc \<and> ?cell rc \<notin> ex" by auto
  qed
  show "\<forall>i \<in> set (cell_idxs coords tr tc). i < 43 \<and> BOARD_CELLS ! i \<notin> ex"
    using at by (auto simp: cell_idxs_def)
  have "inj_on ?idx (set coords)"
  proof (rule inj_onI)
    fix a b assume a: "a \<in> set coords" and b: "b \<in> set coords" and e: "?idx a = ?idx b"
    from at[OF a] at[OF b] e have "?cell a = ?cell b" by metis
    then show "a = b" by (simp add: prod_eq_iff)
  qed
  moreover from ok have "distinct coords" by (simp add: orientation_ok_def)
  ultimately show "distinct (cell_idxs coords tr tc)"
    by (simp add: cell_idxs_def distinct_map)
  show "length (cell_idxs coords tr tc) = length coords" by (simp add: cell_idxs_def)
qed


lemma Placement_fields [simp]:
  "piece (Placement name sq corner rot fl) = name"
  "squares (Placement name sq corner rot fl) = sort sq"
  "top_left (Placement name sq corner rot fl) = corner"
  "rotation (Placement name sq corner rot fl) = rot"
  "flipped (Placement name sq corner rot fl) = fl"
  by (simp_all add: Placement_def)

lemma PIECE_TRANSFORMS_names:
  assumes "nt \<in> set PIECE_TRANSFORMS"
  shows "\<exists>grid. (fst nt, grid) \<in> set PIECES
            \<and> length (grid_to_coords grid) = (if fst nt = ''E'' then 6 else 5)"
proof -
  from assms obtain i where i: "i < length PIECE_TRANSFORMS" "PIECE_TRANSFORMS ! i = nt"
    by (auto simp: in_set_conv_nth)
  from PIECES_transforms have len: "length PIECES = length PIECE_TRANSFORMS"
    and a: "fst (PIECES ! i) = fst nt"
    using i by (auto simp: list_all2_conv_all_nth)
  from i len have m: "PIECES ! i \<in> set PIECES" by simp
  with PIECES_cells a have "length (grid_to_coords (snd (PIECES ! i))) = (if fst nt = ''E'' then 6 else 5)"
    by auto
  moreover from m a have "(fst nt, snd (PIECES ! i)) \<in> set PIECES"
    by (metis prod.collapse)
  ultimately show ?thesis by blast
qed

text \<open>
  Claim C5. \<open>generate_placements\<close> returns for every excluded set, and for every placement
  it emits: every occupied column index is the index of a board cell (a valid cell) that
  is not excluded; the indices are pairwise distinct, and their number is the number of
  filled cells of the base shape of the piece, 6 for piece E and 5 for every other piece.
\<close>

theorem generated_placements_legal:
  "\<exists>gp. generate_placements ex = Inr gp
     \<and> (\<forall>p \<in> set gp.
           (\<forall>i \<in> set (squares p). i < 43 \<and> valid_cell (BOARD_CELLS ! i) \<and> BOARD_CELLS ! i \<notin> ex)
         \<and> distinct (squares p)
         \<and> (\<exists>grid. (piece p, grid) \<in> set PIECES
                   \<and> length (squares p) = length (grid_to_coords grid))
         \<and> length (squares p) = (if piece p = ''E'' then 6 else 5))"
proof (intro exI[of _ "generated ex"] conjI ballI)
  show "generate_placements ex = Inr (generated ex)" by (rule generate_placements_eq)
next
  fix p assume "p \<in> set (generated ex)"
  then obtain nt t tr tc where nt: "nt \<in> set PIECE_TRANSFORMS" and t: "t \<in> set (snd nt)"
    and tr: "tr \<in> set (anchor_rows (fst t))" and tc: "tc \<in> set (anchor_cols (fst t) tr)"
    and fit: "fits ex (fst t) tr tc"
    and p: "p = Placement (fst nt) (cell_idxs (fst t) tr tc) (tr, tc) (fst (snd t)) (snd (snd t))"
    unfolding generated_iff by blast
  from PIECE_TRANSFORMS_ok nt t have ok: "orientation_ok (fst t)"
    and len: "length (fst t) = (if fst nt = ''E'' then 6 else 5)" by blast+
  note sq = generated_squares[OF ok tr tc fit]
  have valid: "\<And>i. i < 43 \<Longrightarrow> valid_cell (BOARD_CELLS ! i)"
    by (simp add: valid_cell_iff length_BOARD_CELLS)
  {
    fix i assume "i \<in> set (squares p)"
    then have "i \<in> set (cell_idxs (fst t) tr tc)" by (simp add: p)
    with sq(1) valid show "i < 43" "valid_cell (BOARD_CELLS ! i)" "BOARD_CELLS ! i \<notin> ex"
      by auto
  }
  show "distinct (squares p)" using sq(2) by (simp add: p)
  have l: "length (squares p) = (if piece p = ''E'' then 6 else 5)"
    using sq(3) len by (simp add: p)
  from PIECE_TRANSFORMS_names[OF nt] l
  show "\<exists>grid. (piece p, grid) \<in> set PIECES \<and> length (squares p) = length (grid_to_coords grid)"
    by (auto simp: p)
  show "length (squares p) = (if piece p = ''E'' then 6 else 5)" by (rule l)
qed

lemma generated_mem:
  assumes "nt \<in> set PIECE_TRANSFORMS" "t \<in> set (snd nt)"
    "tr \<in> set (anchor_rows (fst t))" "tc \<in> set (anchor_cols (fst t) tr)"
    "fits ex (fst t) tr tc"
  shows "Placement (fst nt) (cell_idxs (fst t) tr tc) (tr, tc) (fst (snd t)) (snd (snd t))
           \<in> set (generated ex)"
  unfolding generated_iff using assms by blast

lemma CELL_TO_COL_table:
  "map CELL_TO_COL BOARD_CELLS = map Some [0..<43]"
  using CELL_TO_COL_all
  by (simp add: list_eq_iff_nth_eq length_BOARD_CELLS list_all_iff)


lemma cell_index_formula:
  "list_all (\<lambda>i. (case BOARD_CELLS ! i of (r, c) \<Rightarrow> nat ([0, 6, 12, 19, 26, 33, 40] ! nat r + c)) = i)
            [0..<43]"
  by code_simp

lemma CELL_TO_COL_eq:
  assumes "valid_cell (r, c)"
  shows "CELL_TO_COL (r, c) = Some (nat ([0, 6, 12, 19, 26, 33, 40] ! nat r + c))"
proof -
  from CELL_TO_COL_valid[OF assms] obtain i where
    i: "i < 43" "CELL_TO_COL (r, c) = Some i" "BOARD_CELLS ! i = (r, c)" by blast
  from cell_index_formula i(1)
  have "(case BOARD_CELLS ! i of (r, c) \<Rightarrow> nat ([0, 6, 12, 19, 26, 33, 40] ! nat r + c)) = i"
    by (simp add: list_all_iff)
  with i(2,3) show ?thesis by simp
qed

lemma anchor_A180:
  "cell_idxs [(0, 0), (0, 1), (1, 1), (2, 1), (3, 1)] 0 0 = [0, 1, 7, 13, 20]"
  "fits ex_july6 [(0, 0), (0, 1), (1, 1), (2, 1), (3, 1)] 0 0"
  "0 \<in> set (anchor_rows [(0, 0), (0, 1), (1, 1), (2, 1), (3, 1)])"
  "0 \<in> set (anchor_cols [(0, 0), (0, 1), (1, 1), (2, 1), (3, 1)] 0)"
  by (simp_all add: cell_idxs_def CELL_TO_COL_eq valid_cell_def ROW_WIDTHS_def fits_def
      ex_july6_eq anchor_rows_def anchor_cols_def py_range_set)

theorem generated_placements_legal_witness:
  "\<exists>gp. generate_placements ex_july6 = Inr gp
     \<and> Placement ''A'' [0, 1, 7, 13, 20] (0, 0) 180 False \<in> set gp
     \<and> squares (Placement ''A'' [0, 1, 7, 13, 20] (0, 0) 180 False) = [0, 1, 7, 13, 20]
     \<and> list_all (\<lambda>i. i < 43 \<and> valid_cell (BOARD_CELLS ! i) \<and> BOARD_CELLS ! i \<notin> ex_july6)
                 [0, 1, 7, 13, 20]
     \<and> length (squares (Placement ''A'' [0, 1, 7, 13, 20] (0, 0) 180 False)) = 5"
proof -
  let ?p = "Placement ''A'' [0, 1, 7, 13, 20] (0, 0) 180 False"
  from generated_placements_legal[of ex_july6] obtain gp where
    gp: "generate_placements ex_july6 = Inr gp"
    and legal: "\<And>p. p \<in> set gp \<Longrightarrow>
           (\<forall>i \<in> set (squares p). i < 43 \<and> valid_cell (BOARD_CELLS ! i) \<and> BOARD_CELLS ! i \<notin> ex_july6)
         \<and> length (squares p) = (if piece p = ''E'' then 6 else 5)"
    by blast
  from gp have g: "gp = generated ex_july6" by (simp add: generate_placements_eq)
  have nt: "(''A'', snd (PIECE_TRANSFORMS ! 0)) \<in> set PIECE_TRANSFORMS"
    by (simp add: PIECE_TRANSFORMS_def)
  have t: "([(0, 0), (0, 1), (1, 1), (2, 1), (3, 1)], 180, False) \<in> set (snd (''A'', snd (PIECE_TRANSFORMS ! 0)))"
    by (simp add: PIECE_TRANSFORMS_def)
  from generated_mem[OF nt t, of 0 0 ex_july6] anchor_A180
  have mem: "?p \<in> set gp" by (simp add: g)
  have sq: "squares ?p = [0, 1, 7, 13, 20]" by simp
  from legal[OF mem] have "\<forall>i \<in> set [0, 1, 7, 13, 20].
      i < 43 \<and> valid_cell (BOARD_CELLS ! i) \<and> BOARD_CELLS ! i \<notin> ex_july6"
    and "length (squares ?p) = 5" unfolding sq by simp_all
  then have "list_all (\<lambda>i. i < 43 \<and> valid_cell (BOARD_CELLS ! i) \<and> BOARD_CELLS ! i \<notin> ex_july6)
                 [0, 1, 7, 13, 20]" and "length (squares ?p) = 5"
    by (simp_all only: list_all_iff)
  with gp mem sq show ?thesis by blast
qed

text \<open>
  Claim C2 fails on the code. \<open>generate_placements\<close> takes the anchor column from
  \<open>range(ROW_WIDTHS[tr] - max_c)\<close>, the width of the anchor row alone. Piece H in its
  first orientation (rotation 0, not flipped) anchored at row 1, column 4 fits the rows of
  the board and each of its cells (1,4), (2,4), (3,4), (3,5), (3,6) lies within the width
  of its row and is not excluded for July 6, yet no placement of H with that orientation
  and anchor is emitted: row 1 is 6 cells wide and the orientation 3 cells wide, so the
  anchor columns tried in row 1 are 0 to 3.
\<close>

theorem generate_placements_skips_legal_anchor:
  "\<exists>gp ts. generate_placements ex_july6 = Inr gp
     \<and> (''H'', [[1,0,0],[1,0,0],[1,1,1]]) \<in> set PIECES
     \<and> all_transforms [[1,0,0],[1,0,0],[1,1,1]] = Inr ts
     \<and> ([(0, 0), (1, 0), (2, 0), (2, 1), (2, 2)], 0, False) \<in> set ts
     \<and> 1 + 2 < int (length ROW_WIDTHS)
     \<and> list_all (\<lambda>(pr, pc). valid_cell (1 + pr, 4 + pc) \<and> (1 + pr, 4 + pc) \<notin> ex_july6)
                 [(0, 0), (1, 0), (2, 0), (2, 1), (2, 2)]
     \<and> \<not> (\<exists>p \<in> set gp. piece p = ''H'' \<and> top_left p = (1, 4)
                          \<and> rotation p = 0 \<and> flipped p = False)"
proof -
  let ?ts = "snd (PIECE_TRANSFORMS ! 7)"
  have g: "generate_placements ex_july6 = Inr (generated ex_july6)"
    by (rule generate_placements_eq)
  have p: "(''H'', [[1,0,0],[1,0,0],[1,1,1]]) \<in> set PIECES" by (simp add: PIECES_def)
  have a: "all_transforms [[1,0,0],[1,0,0],[1,1,1]] = Inr ?ts"
    unfolding PIECE_TRANSFORMS_def by code_simp
  have m: "([(0, 0), (1, 0), (2, 0), (2, 1), (2, 2)], 0, False) \<in> set ?ts"
    by (simp add: PIECE_TRANSFORMS_def)
  have rows: "1 + 2 < int (length ROW_WIDTHS)" by (simp add: ROW_WIDTHS_def)
  have cells: "list_all (\<lambda>(pr, pc). valid_cell (1 + pr, 4 + pc) \<and> (1 + pr, 4 + pc) \<notin> ex_july6)
                 [(0, 0), (1, 0), (2, 0), (2, 1), (2, 2)]"
    by (simp add: valid_cell_def ROW_WIDTHS_def ex_july6_eq)
  have none: "\<not> (\<exists>p \<in> set (generated ex_july6). piece p = ''H'' \<and> top_left p = (1, 4)
                          \<and> rotation p = 0 \<and> flipped p = False)"
  proof
    assume "\<exists>p \<in> set (generated ex_july6). piece p = ''H'' \<and> top_left p = (1, 4)
                          \<and> rotation p = 0 \<and> flipped p = False"
    then obtain p where pm: "p \<in> set (generated ex_july6)"
      and pf: "piece p = ''H''" "top_left p = (1, 4)" "rotation p = 0" "flipped p = False"
      by blast
    from pm[unfolded generated_iff] obtain nt t tr tc where
      nt: "nt \<in> set PIECE_TRANSFORMS" and t: "t \<in> set (snd nt)"
      and tc: "tc \<in> set (anchor_cols (fst t) tr)"
      and pe: "p = Placement (fst nt) (cell_idxs (fst t) tr tc) (tr, tc) (fst (snd t)) (snd (snd t))"
      by blast
    from pf have f: "fst nt = ''H''" "(tr, tc) = (1, 4)" "fst (snd t) = 0" "snd (snd t) = False"
      by (simp_all add: pe)
    from nt f(1) have "snd nt = ?ts" by (auto simp: PIECE_TRANSFORMS_def)
    with t f(3,4) have "fst t = [(0, 0), (1, 0), (2, 0), (2, 1), (2, 2)]"
      by (auto simp: PIECE_TRANSFORMS_def)
    with tc f(2) show False
      by (simp add: anchor_cols_def py_range_set ROW_WIDTHS_def)
  qed
  from g p a m rows cells none show ?thesis by blast
qed

section \<open>A solution found is an exact cover\<close>

lemma push_rows_props:
  assumes "push_rows cx rs u = Some u'"
  shows "u' = u \<union> \<Union> (rc_of cx ` set rs)
    \<and> (\<forall>r \<in> set rs. row_cols cx r = Inr (rc_of cx r) \<and> rc_of cx r \<inter> u = {})
    \<and> distinct rs
    \<and> (\<forall>r \<in> set rs. \<forall>r' \<in> set rs. r \<noteq> r' \<longrightarrow> rc_of cx r \<inter> rc_of cx r' = {})"
  using assms
proof (induction rs arbitrary: u)
  case Nil
  then show ?case by simp
next
  case (Cons r rs)
  from Cons.prems obtain rc where rc: "row_cols cx r = Inr rc" "rc \<inter> u = {}"
    and rest: "push_rows cx rs (u \<union> rc) = Some u'"
    by (auto split: sum.splits if_splits)
  have rcof: "rc_of cx r = rc" by (simp add: rc_of_def rc(1))
  from row_cols_piece_col[OF rc(1)] have ne: "rc \<noteq> {}" by auto
  from Cons.IH[OF rest] have
    IH1: "u' = (u \<union> rc) \<union> \<Union> (rc_of cx ` set rs)"
    and IH2: "\<forall>r \<in> set rs. row_cols cx r = Inr (rc_of cx r) \<and> rc_of cx r \<inter> (u \<union> rc) = {}"
    and IH3: "distinct rs"
    and IH4: "\<forall>r \<in> set rs. \<forall>r' \<in> set rs. r \<noteq> r' \<longrightarrow> rc_of cx r \<inter> rc_of cx r' = {}"
    by blast+
  have disj: "\<forall>r' \<in> set rs. rc_of cx r' \<inter> rc = {}" using IH2 by auto
  have 1: "u' = u \<union> \<Union> (rc_of cx ` set (r # rs))" using IH1 rcof by auto
  have 2: "\<forall>x \<in> set (r # rs). row_cols cx x = Inr (rc_of cx x) \<and> rc_of cx x \<inter> u = {}"
    using IH2 rc rcof by auto
  have "r \<notin> set rs"
  proof
    assume "r \<in> set rs"
    with disj rcof have "rc \<inter> rc = {}" by blast
    with ne show False by simp
  qed
  with IH3 have 3: "distinct (r # rs)" by simp
  have 4: "\<forall>x \<in> set (r # rs). \<forall>y \<in> set (r # rs). x \<noteq> y \<longrightarrow> rc_of cx x \<inter> rc_of cx y = {}"
    using IH4 disj rcof by (auto simp: Int_commute)
  from 1 2 3 4 show ?case by blast
qed

lemma rows_to_placements_eq:
  assumes "\<forall>r \<in> set rs. r < length pls"
  shows "rows_to_placements pls rs = Inr (map ((!) pls) rs)"
proof -
  have "for_each (\<lambda>r acc. bind_err (py_index pls (int r)) (\<lambda>pl. Inr (acc @ [pl]))) rs []
        = Inr ([] @ concat (map (\<lambda>r. [pls ! r]) rs))"
    by (rule for_each_appends) (simp add: py_index_def assms)
  moreover have "concat (map (\<lambda>r. [pls ! r]) rs) = map ((!) pls) rs"
    by (induction rs) simp_all
  ultimately show ?thesis by (simp add: rows_to_placements_def)
qed

lemma piece_cols_inj:
  assumes "map_of (piece_col_items m) a = Some k" "map_of (piece_col_items m) b = Some k"
  shows "a = b"
  using assms by (auto simp: piece_col_items_def split: if_splits)


lemma exact_cover_rows:
  assumes cx: "make_ctx pls ex = Inr cx"
    and push: "push_rows cx rs {} = Some (universe cx)"
  shows "length rs = 8"
    and "\<forall>r \<in> set rs. r < length pls"
    and "distinct (map (\<lambda>r. piece (pls ! r)) rs)"
    and "(\<lambda>r. piece (pls ! r)) ` set rs = fst ` set PIECES"
    and "(\<Union>r \<in> set rs. set (squares (pls ! r)) \<inter> board_cols cx) = board_cols cx"
    and "\<forall>r \<in> set rs. \<forall>r' \<in> set rs. r \<noteq> r' \<longrightarrow>
           (set (squares (pls ! r)) \<inter> board_cols cx) \<inter> (set (squares (pls ! r')) \<inter> board_cols cx) = {}"
    and "distinct rs"
proof -
  let ?bc = "{i. i < 43 \<and> BOARD_CELLS ! i \<notin> ex}"
  let ?M = "Max ?bc"
  let ?P = "{?M + 1 .. ?M + 8}"
  let ?pc = "map_of (piece_col_items ?M)"
  note f = make_ctx_Inr[OF cx]
  have bc: "board_cols cx = ?bc" and pc: "piece_cols cx = ?pc" and pls: "placements cx = pls"
    by (rule f)+
  have u: "universe cx = ?bc \<union> ?P" by (simp add: f(5) piece_col_values)
  have disjP: "?P \<inter> ?bc = {}"
  proof -
    have "\<And>c. c \<in> ?bc \<Longrightarrow> c \<le> ?M" by (rule Max_bcols_less)
    then show ?thesis by fastforce
  qed
  from push_rows_props[OF push] have
    un: "universe cx = \<Union> (rc_of cx ` set rs)"
    and rows: "\<forall>r \<in> set rs. row_cols cx r = Inr (rc_of cx r)"
    and dist: "distinct rs"
    and pair: "\<forall>r \<in> set rs. \<forall>r' \<in> set rs. r \<noteq> r' \<longrightarrow> rc_of cx r \<inter> rc_of cx r' = {}"
    by auto
  show "distinct rs" by (rule dist)
  define pk where "pk r = the (?pc (piece (pls ! r)))" for r
  have row: "r < length pls \<and> ?pc (piece (pls ! r)) = Some (pk r) \<and> pk r \<in> ?P
            \<and> rc_of cx r = (set (squares (pls ! r)) \<inter> ?bc) \<union> {pk r}"
    if "r \<in> set rs" for r
  proof -
    from rows that have "row_cols cx r = Inr (rc_of cx r)" by simp
    then obtain k where k: "r < length pls" "?pc (piece (pls ! r)) = Some k"
      "rc_of cx r = (set (squares (pls ! r)) \<inter> ?bc) \<union> {k}"
      by (auto simp: row_cols_Inr bc pc pls)
    from k(2) have "k \<in> ran ?pc" by (auto simp: ran_def)
    then have "k \<in> ?P" by (simp only: ran_piece_cols)
    with k show ?thesis by (simp add: pk_def)
  qed
  show "\<forall>r \<in> set rs. r < length pls" using row by blast
  have inj: "inj_on pk (set rs)"
  proof (rule inj_onI)
    fix a b assume a: "a \<in> set rs" and b: "b \<in> set rs" and e: "pk a = pk b"
    show "a = b"
    proof (rule ccontr)
      assume "a \<noteq> b"
      with pair a b have "rc_of cx a \<inter> rc_of cx b = {}" by blast
      moreover have "pk a \<in> rc_of cx a" "pk a \<in> rc_of cx b" using row[OF a] row[OF b] e by auto
      ultimately show False by blast
    qed
  qed
  have img: "pk ` set rs = ?P"
  proof
    show "pk ` set rs \<subseteq> ?P" using row by blast
    show "?P \<subseteq> pk ` set rs"
    proof
      fix p assume p: "p \<in> ?P"
      then have "p \<in> universe cx" by (simp add: u)
      with un obtain r where r: "r \<in> set rs" "p \<in> rc_of cx r" by auto
      from p disjP have "p \<notin> ?bc" by blast
      with r(2) row[OF r(1)] have "p = pk r" by auto
      with r(1) show "p \<in> pk ` set rs" by blast
    qed
  qed
  have "card (set rs) = card ?P" using card_image[OF inj] img by simp
  then show "length rs = 8" using distinct_card[OF dist] by simp
  show "distinct (map (\<lambda>r. piece (pls ! r)) rs)"
  proof -
    have "inj_on (\<lambda>r. piece (pls ! r)) (set rs)"
    proof (rule inj_onI)
      fix a b assume a: "a \<in> set rs" and b: "b \<in> set rs"
        and e: "piece (pls ! a) = piece (pls ! b)"
      then have "pk a = pk b" by (simp add: pk_def)
      with inj a b show "a = b" by (auto dest: inj_onD)
    qed
    with dist show ?thesis by (simp add: distinct_map)
  qed
  show "(\<lambda>r. piece (pls ! r)) ` set rs = fst ` set PIECES"
  proof
    show "(\<lambda>r. piece (pls ! r)) ` set rs \<subseteq> fst ` set PIECES"
    proof
      fix n assume "n \<in> (\<lambda>r. piece (pls ! r)) ` set rs"
      then obtain r where r: "r \<in> set rs" "n = piece (pls ! r)" by blast
      from row[OF r(1)] r(2) have "n \<in> dom ?pc" by auto
      then have "n \<in> set (map fst (piece_col_items ?M))"
        by (simp add: dom_map_of_conv_image_fst)
      then show "n \<in> fst ` set PIECES" by (simp only: piece_col_keys) simp
    qed
    show "fst ` set PIECES \<subseteq> (\<lambda>r. piece (pls ! r)) ` set rs"
    proof
      fix n assume "n \<in> fst ` set PIECES"
      then have "n \<in> set (map fst PIECES)" by simp
      then have "n \<in> set (map fst (piece_col_items ?M))" by (simp only: piece_col_keys)
      then have "n \<in> dom ?pc" by (simp add: dom_map_of_conv_image_fst)
      then obtain k where k: "?pc n = Some k" by blast
      then have "k \<in> ran ?pc" by (auto simp: ran_def)
      then have "k \<in> pk ` set rs" by (simp only: ran_piece_cols img)
      then obtain r where r: "r \<in> set rs" "k = pk r" by blast
      from row[OF r(1)] r(2) have "?pc (piece (pls ! r)) = Some k" by simp
      from piece_cols_inj[OF this k] r(1) show "n \<in> (\<lambda>r. piece (pls ! r)) ` set rs" by blast
    qed
  qed
  show "(\<Union>r \<in> set rs. set (squares (pls ! r)) \<inter> board_cols cx) = board_cols cx"
  proof
    show "(\<Union>r \<in> set rs. set (squares (pls ! r)) \<inter> board_cols cx) \<subseteq> board_cols cx" by blast
    show "board_cols cx \<subseteq> (\<Union>r \<in> set rs. set (squares (pls ! r)) \<inter> board_cols cx)"
    proof
      fix b assume b: "b \<in> board_cols cx"
      then have "b \<in> universe cx" by (simp add: u bc)
      with un obtain r where r: "r \<in> set rs" "b \<in> rc_of cx r" by auto
      from b disjP have "b \<notin> ?P" by (auto simp: bc)
      with row[OF r(1)] have "b \<noteq> pk r" by auto
      with r(2) row[OF r(1)] have "b \<in> set (squares (pls ! r)) \<inter> board_cols cx"
        by (auto simp: bc)
      with r(1) show "b \<in> (\<Union>r \<in> set rs. set (squares (pls ! r)) \<inter> board_cols cx)" by blast
    qed
  qed
  show "\<forall>r \<in> set rs. \<forall>r' \<in> set rs. r \<noteq> r' \<longrightarrow>
           (set (squares (pls ! r)) \<inter> board_cols cx) \<inter> (set (squares (pls ! r')) \<inter> board_cols cx) = {}"
  proof (intro ballI impI)
    fix r r' assume r: "r \<in> set rs" and r': "r' \<in> set rs" and "r \<noteq> r'"
    with pair have "rc_of cx r \<inter> rc_of cx r' = {}" by blast
    with row[OF r] row[OF r'] 
    show "(set (squares (pls ! r)) \<inter> board_cols cx) \<inter> (set (squares (pls ! r')) \<inter> board_cols cx) = {}"
      by (auto simp: bc)
  qed
qed


lemma solve_exact_cover_found:
  assumes "solve_exact_cover n iter pls ex = Some (Inr (Some ps, t))"
  shows "\<exists>cx s. make_ctx pls ex = Inr cx
           \<and> search n iter cx \<lparr>sol = [], used = {}, tries = 0\<rparr> = Some (Inr (True, s))
           \<and> rows_to_placements pls (sol s) = Inr ps \<and> t = tries s"
proof (cases "make_ctx pls ex")
  case (Inl e)
  with assms show ?thesis by (simp add: solve_exact_cover_def)
next
  case (Inr cx)
  let ?s0 = "\<lparr>sol = [], used = {}, tries = 0\<rparr>"
  show ?thesis
  proof (cases "search n iter cx ?s0")
    case None
    with assms Inr show ?thesis by (simp add: solve_exact_cover_def)
  next
    case (Some r)
    show ?thesis
    proof (cases r)
      case (Inl e)
      with assms \<open>make_ctx pls ex = Inr cx\<close> Some show ?thesis by (simp add: solve_exact_cover_def)
    next
      case (Inr p)
      obtain f s where p: "p = (f, s)" by (cases p)
      show ?thesis
      proof (cases f)
        case False
        with assms \<open>make_ctx pls ex = Inr cx\<close> Some Inr p show ?thesis
          by (simp add: solve_exact_cover_def)
      next
        case True
        with assms \<open>make_ctx pls ex = Inr cx\<close> Some Inr p
        have "rows_to_placements pls (sol s) = Inr ps \<and> t = tries s"
          by (cases "rows_to_placements pls (sol s)") (simp_all add: solve_exact_cover_def)
        with \<open>make_ctx pls ex = Inr cx\<close> Some Inr p True show ?thesis by simp
      qed
    qed
  qed
qed

lemma generated_in_board_cols:
  assumes "p \<in> set (generated ex)"
  shows "set (squares p) \<subseteq> {i. i < 43 \<and> BOARD_CELLS ! i \<notin> ex}"
proof -
  from assms obtain nt t tr tc where nt: "nt \<in> set PIECE_TRANSFORMS" and t: "t \<in> set (snd nt)"
    and tr: "tr \<in> set (anchor_rows (fst t))" and tc: "tc \<in> set (anchor_cols (fst t) tr)"
    and fit: "fits ex (fst t) tr tc"
    and p: "p = Placement (fst nt) (cell_idxs (fst t) tr tc) (tr, tc) (fst (snd t)) (snd (snd t))"
    unfolding generated_iff by blast
  from PIECE_TRANSFORMS_ok nt t have ok: "orientation_ok (fst t)" by blast
  from generated_squares(1)[OF ok tr tc fit] show ?thesis by (auto simp: p)
qed

text \<open>
  Claim C1. Let \<open>pls\<close> be a list of placements that \<open>generate_placements\<close> emits for the
  excluded set (in particular the list it returns). If \<open>solve_exact_cover\<close> returns a
  solution, the solution has exactly 8 placements, every one of the 8 piece tags is the
  piece of exactly one of them, the union of their column indices is exactly the set of
  the columns of the non-excluded board cells, and no two of them share a column.
\<close>

theorem solution_is_exact_cover:
  assumes gen: "generate_placements ex = Inr gp" and sub: "set pls \<subseteq> set gp"
    and solve: "solve_exact_cover n iter pls ex = Some (Inr (Some ps, t))"
  shows "length ps = 8
       \<and> distinct (map piece ps) \<and> set (map piece ps) = fst ` set PIECES
       \<and> (\<Union>p \<in> set ps. set (squares p)) = {i. i < 43 \<and> BOARD_CELLS ! i \<notin> ex}
       \<and> (\<forall>i < length ps. \<forall>j < length ps. i \<noteq> j \<longrightarrow>
             set (squares (ps ! i)) \<inter> set (squares (ps ! j)) = {})
       \<and> set ps \<subseteq> set pls"
proof -
  let ?bc = "{i. i < 43 \<and> BOARD_CELLS ! i \<notin> ex}"
  from solve_exact_cover_found[OF solve] obtain cx s where
    cx: "make_ctx pls ex = Inr cx"
    and found: "search n iter cx \<lparr>sol = [], used = {}, tries = 0\<rparr> = Some (Inr (True, s))"
    and ps: "rows_to_placements pls (sol s) = Inr ps" by blast
  from search_success(1)[OF found] have push: "push_rows cx (sol s) {} = Some (universe cx)"
    by auto
  let ?rs = "sol s"
  note e = exact_cover_rows[OF cx push]
  have bc: "board_cols cx = ?bc" by (rule make_ctx_Inr(3)[OF cx])
  from ps e(2) have pe: "ps = map ((!) pls) ?rs" by (simp add: rows_to_placements_eq)
  from gen have g: "gp = generated ex" by (simp add: generate_placements_eq)
  have inb: "set (squares (pls ! r)) \<inter> ?bc = set (squares (pls ! r))" if "r \<in> set ?rs" for r
  proof -
    from e(2) that have "pls ! r \<in> set pls" by simp
    with sub g have "pls ! r \<in> set (generated ex)" by blast
    from generated_in_board_cols[OF this] show ?thesis by blast
  qed
  have 1: "length ps = 8" using e(1) by (simp add: pe)
  have 2: "distinct (map piece ps)" using e(3) by (simp add: pe comp_def)
  have 3: "set (map piece ps) = fst ` set PIECES" using e(4) by (simp add: pe image_image)
  have 4: "(\<Union>p \<in> set ps. set (squares p)) = ?bc"
  proof -
    have "(\<Union>p \<in> set ps. set (squares p)) = (\<Union>r \<in> set ?rs. set (squares (pls ! r)))"
      by (simp add: pe)
    also have "\<dots> = (\<Union>r \<in> set ?rs. set (squares (pls ! r)) \<inter> ?bc)"
      using inb by simp
    also have "\<dots> = ?bc" using e(5) by (simp add: bc)
    finally show ?thesis .
  qed
  have 5: "\<forall>i < length ps. \<forall>j < length ps. i \<noteq> j \<longrightarrow>
             set (squares (ps ! i)) \<inter> set (squares (ps ! j)) = {}"
  proof (intro allI impI)
    fix i j assume i: "i < length ps" and j: "j < length ps" and ne: "i \<noteq> j"
    then have ri: "?rs ! i \<in> set ?rs" and rj: "?rs ! j \<in> set ?rs" by (simp_all add: pe)
    from i j ne e(7) have "?rs ! i \<noteq> ?rs ! j" by (simp add: pe nth_eq_iff_index_eq)
    with e(6) ri rj have "(set (squares (pls ! (?rs ! i))) \<inter> board_cols cx)
        \<inter> (set (squares (pls ! (?rs ! j))) \<inter> board_cols cx) = {}" by blast
    then have "set (squares (pls ! (?rs ! i))) \<inter> set (squares (pls ! (?rs ! j))) = {}"
      unfolding bc inb[OF ri] inb[OF rj] .
    with i j show "set (squares (ps ! i)) \<inter> set (squares (ps ! j)) = {}" by (simp add: pe)
  qed
  have 6: "set ps \<subseteq> set pls" using e(2) by (auto simp: pe)
  from 1 2 3 4 5 6 show ?thesis by blast
qed

section \<open>The column chosen\<close>

lemma min_from_char:
  assumes "\<forall>y \<in> set ys. key y = Inr (k y)"
  shows "\<exists>m. min_from key ys best (k best) = Inr m
           \<and> k m \<le> k best \<and> (\<forall>y \<in> set ys. k m \<le> k y)
           \<and> (m = best \<or> (\<exists>as bs. ys = as @ m # bs \<and> (\<forall>a \<in> set as. k m < k a) \<and> k m < k best))"
  using assms
proof (induction ys arbitrary: best)
  case Nil
  then show ?case by simp
next
  case (Cons y ys)
  from Cons.prems have ky: "key y = Inr (k y)" and rest: "\<forall>y \<in> set ys. key y = Inr (k y)"
    by simp_all
  show ?case
  proof (cases "k y < k best")
    case True
    from Cons.IH[OF rest, of y] obtain m where
      m: "min_from key ys y (k y) = Inr m" "k m \<le> k y" "\<forall>z \<in> set ys. k m \<le> k z"
      and pos: "m = y \<or> (\<exists>as bs. ys = as @ m # bs \<and> (\<forall>a \<in> set as. k m < k a) \<and> k m < k y)"
      by blast
    have r: "min_from key (y # ys) best (k best) = Inr m" using ky True m(1) by simp
    have "\<exists>as bs. y # ys = as @ m # bs \<and> (\<forall>a \<in> set as. k m < k a) \<and> k m < k best"
    proof (rule disjE[OF pos])
      assume "m = y"
      with True show ?thesis by (intro exI[of _ "[]"] exI[of _ ys]) simp
    next
      assume "\<exists>as bs. ys = as @ m # bs \<and> (\<forall>a \<in> set as. k m < k a) \<and> k m < k y"
      then obtain as bs where "ys = as @ m # bs" "\<forall>a \<in> set as. k m < k a" "k m < k y" by blast
      with True show ?thesis by (intro exI[of _ "y # as"] exI[of _ bs]) auto
    qed
    with r m True show ?thesis by (intro exI[of _ m]) auto
  next
    case False
    from Cons.IH[OF rest, of best] obtain m where
      m: "min_from key ys best (k best) = Inr m" "k m \<le> k best" "\<forall>z \<in> set ys. k m \<le> k z"
      and pos: "m = best \<or> (\<exists>as bs. ys = as @ m # bs \<and> (\<forall>a \<in> set as. k m < k a) \<and> k m < k best)"
      by blast
    have r: "min_from key (y # ys) best (k best) = Inr m" using ky False m(1) by simp
    have "m = best \<or> (\<exists>as bs. y # ys = as @ m # bs \<and> (\<forall>a \<in> set as. k m < k a) \<and> k m < k best)"
    proof (rule disjE[OF pos])
      assume "m = best" then show ?thesis by simp
    next
      assume "\<exists>as bs. ys = as @ m # bs \<and> (\<forall>a \<in> set as. k m < k a) \<and> k m < k best"
      then obtain as bs where a: "ys = as @ m # bs" "\<forall>a \<in> set as. k m < k a" "k m < k best" by blast
      with False have "y # ys = (y # as) @ m # bs \<and> (\<forall>a \<in> set (y # as). k m < k a) \<and> k m < k best"
        by auto
      then show ?thesis by blast
    qed
    with r m False show ?thesis by (intro exI[of _ m]) auto
  qed
qed

lemma min_by_char:
  assumes "\<forall>x \<in> set xs. key x = Inr (k x)" and "xs \<noteq> []"
  shows "\<exists>m as bs. min_by key xs = Inr m \<and> xs = as @ m # bs
           \<and> (\<forall>a \<in> set as. k m < k a) \<and> (\<forall>x \<in> set xs. k m \<le> k x)"
proof -
  from assms(2) obtain x ys where xs: "xs = x # ys" by (cases xs) auto
  with assms(1) have kx: "key x = Inr (k x)" and rest: "\<forall>y \<in> set ys. key y = Inr (k y)" by simp_all
  from min_from_char[OF rest, of x] obtain m where
    m: "min_from key ys x (k x) = Inr m" "k m \<le> k x" "\<forall>y \<in> set ys. k m \<le> k y"
    and pos: "m = x \<or> (\<exists>as bs. ys = as @ m # bs \<and> (\<forall>a \<in> set as. k m < k a) \<and> k m < k x)"
    by blast
  have r: "min_by key xs = Inr m" using kx m(1) by (simp add: min_by_def xs)
  have all: "\<forall>z \<in> set xs. k m \<le> k z" using m(2,3) by (simp add: xs)
  have "\<exists>as bs. xs = as @ m # bs \<and> (\<forall>a \<in> set as. k m < k a)"
  proof (rule disjE[OF pos])
    assume "m = x"
    then show ?thesis by (intro exI[of _ "[]"] exI[of _ ys]) (simp add: xs)
  next
    assume "\<exists>as bs. ys = as @ m # bs \<and> (\<forall>a \<in> set as. k m < k a) \<and> k m < k x"
    then obtain as bs where "ys = as @ m # bs" "\<forall>a \<in> set as. k m < k a" "k m < k x" by blast
    then show ?thesis by (intro exI[of _ "x # as"] exI[of _ bs]) (auto simp: xs)
  qed
  with r all show ?thesis by blast
qed

lemma col_to_rows_char:
  assumes cx: "make_ctx pls ex = Inr cx"
  shows "col_to_rows cx c =
     (if c \<in> universe cx
      then Some (filter (\<lambda>idx. c \<in> rc_of cx idx) [0..<length pls])
      else None)"
proof -
  define bc where "bc = board_cols cx"
  define pc where "pc = piece_cols cx"
  define m0 where "m0 = (\<lambda>c. if c \<in> universe cx then Some ([]::nat list) else None)"
  note f = make_ctx_Inr[OF cx]
  have loop: "for_each (index_row bc pc) (enumerate 0 pls) m0 = Inr (col_to_rows cx)"
    unfolding bc_def pc_def m0_def f(3,4,5) by (rule f(6))
  note ch = index_rows_char[OF loop]
  have d: "dom (col_to_rows cx) = dom m0" using ch by (rule conjunct1)
  have known: "\<forall>pl \<in> set pls. piece pl \<in> dom pc" using ch by (rule conjunct1[OF conjunct2])
  have rows: "\<forall>c rows. m0 c = Some rows \<longrightarrow> col_to_rows cx c = Some (rows @
        filter (\<lambda>idx. \<exists>cols. cols_of bc pc (pls ! (idx - 0)) = Inr cols \<and> c \<in> cols) [0..<0 + length pls])"
    using ch by (rule conjunct2[OF conjunct2])
  show ?thesis
  proof (cases "c \<in> universe cx")
    case False
    then have "c \<notin> dom m0" by (simp add: m0_def dom_def)
    with d have "col_to_rows cx c = None" by blast
    with False show ?thesis by simp
  next
    case True
    then have "m0 c = Some []" by (simp add: m0_def)
    with rows have "col_to_rows cx c = Some ([] @
        filter (\<lambda>idx. \<exists>cols. cols_of bc pc (pls ! (idx - 0)) = Inr cols \<and> c \<in> cols) [0..<0 + length pls])"
      by blast
    then have 1: "col_to_rows cx c = Some (
        filter (\<lambda>idx. \<exists>cols. cols_of bc pc (pls ! idx) = Inr cols \<and> c \<in> cols) [0..<length pls])"
      by simp
    have 2: "filter (\<lambda>idx. \<exists>cols. cols_of bc pc (pls ! idx) = Inr cols \<and> c \<in> cols) [0..<length pls]
        = filter (\<lambda>idx. c \<in> rc_of cx idx) [0..<length pls]"
    proof (rule filter_cong[OF refl])
      fix idx assume "idx \<in> set [0..<length pls]"
      then have i: "idx < length pls" by simp
      then have rc: "row_cols cx idx = cols_of bc pc (pls ! idx)"
        by (simp add: row_cols_def py_index_def f(2) bc_def pc_def)
      from i have "pls ! idx \<in> set pls" by simp
      with known have "piece (pls ! idx) \<in> dom pc" by blast
      then obtain k where "pc (piece (pls ! idx)) = Some k" by blast
      then have "cols_of bc pc (pls ! idx) = Inr ((set (squares (pls ! idx)) \<inter> bc) \<union> {k})"
        by (simp add: cols_of_Inr)
      then show "(\<exists>cols. cols_of bc pc (pls ! idx) = Inr cols \<and> c \<in> cols) = (c \<in> rc_of cx idx)"
        by (simp add: rc_of_def rc)
    qed
    show ?thesis using True by (simp add: 1 2)
  qed
qed

lemma concat_if_filter:
  "concat (map (\<lambda>r. if P r then [r] else []) xs) = filter P xs"
  by (induction xs) simp_all

lemma slack_eq:
  assumes cx: "make_ctx pls ex = Inr cx" and c: "c \<in> universe cx"
  shows "slack cx u c = Inr (length (free_rows cx u c))"
proof -
  let ?rows = "filter (\<lambda>idx. c \<in> rc_of cx idx) [0..<length pls]"
  let ?free = "\<lambda>r. set (squares (pls ! r)) \<inter> u = {}"
  have ctr: "col_to_rows cx c = Some ?rows" using col_to_rows_char[OF cx, of c] c by simp
  have pl: "placements cx = pls" by (rule make_ctx_Inr(2)[OF cx])
  have "for_each (\<lambda>r acc. bind_err (py_index pls (int r)) (\<lambda>pl.
                  Inr (if set (squares pl) \<inter> u = {} then acc @ [r] else acc))) ?rows []
        = Inr ([] @ concat (map (\<lambda>r. if ?free r then [r] else []) ?rows))"
    by (rule for_each_appends) (auto simp: py_index_def)
  moreover have "concat (map (\<lambda>r. if ?free r then [r] else []) ?rows) = filter ?free ?rows"
    by (rule concat_if_filter)
  ultimately show ?thesis
    by (simp add: slack_def py_lookup_def ctr pl free_rows_def)
qed



lemma min_from_cong:
  assumes "\<And>x. x \<in> set xs \<Longrightarrow> f x = g x"
  shows "min_from f xs best kb = min_from g xs best kb"
  using assms
proof (induction xs arbitrary: best kb)
  case Nil
  show ?case by simp
next
  case (Cons a xs)
  have a: "f a = g a" by (rule Cons.prems) simp
  have r: "min_from f xs b k = min_from g xs b k" for b k
    by (rule Cons.IH) (simp add: Cons.prems)
  show ?case by (cases "g a") (simp_all add: a r)
qed

lemma min_by_cong:
  assumes "\<And>x. x \<in> set xs \<Longrightarrow> f x = g x"
  shows "min_by f xs = min_by g xs"
proof (cases xs)
  case Nil
  then show ?thesis by (simp add: min_by_def)
next
  case (Cons x ys)
  have a: "f x = g x" by (rule assms) (simp add: Cons)
  have r: "min_from f ys b k = min_from g ys b k" for b k
    by (rule min_from_cong) (simp add: assms Cons)
  show ?thesis by (cases "g x") (simp_all add: min_by_def Cons a r)
qed


lemma free_rows_filter:
  assumes cx: "make_ctx pls ex = Inr cx" and c: "c \<in> universe cx"
    and fr: "filter (\<lambda>r. set (squares (pls ! r)) \<inter> u = {}) [0..<length pls] = fr"
  shows "length (free_rows cx u c) = length (filter (\<lambda>r. c \<in> rc_of cx r) fr)"
proof -
  have "free_rows cx u c = filter (\<lambda>r. set (squares (pls ! r)) \<inter> u = {})
          (filter (\<lambda>idx. c \<in> rc_of cx idx) [0..<length pls])"
    using c by (simp add: free_rows_def col_to_rows_char[OF cx] make_ctx_Inr(2)[OF cx])
  also have "\<dots> = filter (\<lambda>r. c \<in> rc_of cx r) fr"
    unfolding fr[symmetric] by (simp add: conj_commute)
  finally show ?thesis by simp
qed


text \<open>
  Claim C4, as amended. At a step of the search that is not terminal (\<open>used\<close> is a proper
  subset of the universe), \<open>choose\<close> returns a column of the universe that is not in
  \<open>used\<close>. The key it minimizes is the number of rows \<open>r\<close> of \<open>col_to_rows[c]\<close> with
  \<open>set(placements[r].squares) & used\<close> empty: only the squares of the row are tested, its
  piece column is not. The column returned has the least key among the unused columns, and
  it is the first such column in the order in which the set \<open>universe - used\<close> is iterated.
\<close>

theorem choose_col_least_slack:
  assumes cx: "make_ctx pls ex = Inr cx"
    and order: "set (iter (universe cx - used s)) = universe cx - used s"
    and sub: "used s \<subseteq> universe cx" and ne: "used s \<noteq> universe cx"
  shows "\<exists>c as bs. choose_col iter cx s = Inr c \<and> c \<in> universe cx \<and> c \<notin> used s
       \<and> (\<forall>c' \<in> universe cx. slack cx (used s) c' = Inr (length (free_rows cx (used s) c')))
       \<and> (\<forall>c' \<in> universe cx - used s.
             length (free_rows cx (used s) c) \<le> length (free_rows cx (used s) c'))
       \<and> iter (universe cx - used s) = as @ c # bs
       \<and> (\<forall>a \<in> set as. length (free_rows cx (used s) c) < length (free_rows cx (used s) a))"
proof -
  let ?xs = "iter (universe cx - used s)"
  let ?k = "\<lambda>c. length (free_rows cx (used s) c)"
  have keys: "\<forall>c' \<in> universe cx. slack cx (used s) c' = Inr (?k c')"
    using slack_eq[OF cx] by blast
  then have k: "\<forall>x \<in> set ?xs. slack cx (used s) x = Inr (?k x)" unfolding order by blast
  from sub ne have "universe cx - used s \<noteq> {}" by blast
  with order have "?xs \<noteq> []" by auto
  from min_by_char[OF k this] obtain m as bs where
    m: "min_by (slack cx (used s)) ?xs = Inr m" "?xs = as @ m # bs"
      "\<forall>a \<in> set as. ?k m < ?k a" "\<forall>x \<in> set ?xs. ?k m \<le> ?k x" by blast
  from m(2) have "m \<in> set ?xs" by simp
  then have mem: "m \<in> universe cx" "m \<notin> used s" unfolding order by blast+
  have ch: "choose_col iter cx s = Inr m" by (simp add: choose_col_def m(1))
  from m(4) have least: "\<forall>c' \<in> universe cx - used s. ?k m \<le> ?k c'" unfolding order .
  from ch mem keys least m(2,3) show ?thesis by blast
qed


section \<open>Runs of the solver for July 6\<close>

lemma generated_at:
  assumes "i < length PIECE_TRANSFORMS" "j < length (snd (PIECE_TRANSFORMS ! i))"
    and "fst (PIECE_TRANSFORMS ! i) = name" "snd (PIECE_TRANSFORMS ! i) ! j = (coords, rot, fl)"
    and "tr \<in> set (anchor_rows coords)" "tc \<in> set (anchor_cols coords tr)"
    and "fits ex coords tr tc" "cell_idxs coords tr tc = sq"
  shows "Placement name sq (tr, tc) rot fl \<in> set (generated ex)"
proof -
  have nt: "PIECE_TRANSFORMS ! i \<in> set PIECE_TRANSFORMS" using assms(1) by simp
  have t: "snd (PIECE_TRANSFORMS ! i) ! j \<in> set (snd (PIECE_TRANSFORMS ! i))"
    using assms(2) by simp
  from generated_mem[OF nt t, of tr tc ex] assms(3-) show ?thesis by simp
qed

lemma length_PIECE_TRANSFORMS: "length PIECE_TRANSFORMS = 8"
  by (simp add: PIECE_TRANSFORMS_def)

lemmas place_simps = cell_idxs_def CELL_TO_COL_eq valid_cell_def ROW_WIDTHS_def fits_def
      ex_july6_eq anchor_rows_def anchor_cols_def py_range_set

lemma tiling_generated: "set tiling_july6 \<subseteq> set (generated ex_july6)"
proof -
  have "Placement ''A'' [0, 1, 7, 13, 20] (0, 0) 180 False \<in> set (generated ex_july6)"
    by (rule generated_at[of 0 2 _ "[(0, 0), (0, 1), (1, 1), (2, 1), (3, 1)]"])
       (simp_all add: PIECE_TRANSFORMS_def place_simps)
  moreover have "Placement ''B'' [18, 24, 25, 32, 39] (2, 5) 180 False \<in> set (generated ex_july6)"
    by (rule generated_at[of 1 2 _ "[(0, 1), (1, 0), (1, 1), (2, 1), (3, 1)]"])
       (simp_all add: PIECE_TRANSFORMS_def place_simps)
  moreover have "Placement ''C'' [16, 23, 30, 31, 38] (2, 4) 0 False \<in> set (generated ex_july6)"
    by (rule generated_at[of 2 0 _ "[(0, 0), (1, 0), (2, 0), (2, 1), (3, 1)]"])
       (simp_all add: PIECE_TRANSFORMS_def place_simps)
  moreover have "Placement ''D'' [2, 3, 8, 14, 15] (0, 2) 0 False \<in> set (generated ex_july6)"
    by (rule generated_at[of 3 0 _ "[(0, 0), (0, 1), (1, 0), (2, 0), (2, 1)]"])
       (simp_all add: PIECE_TRANSFORMS_def place_simps)
  moreover have "Placement ''E'' [33, 34, 35, 40, 41, 42] (5, 0) 90 False \<in> set (generated ex_july6)"
    by (rule generated_at[of 4 1 _ "[(0, 0), (0, 1), (0, 2), (1, 0), (1, 1), (1, 2)]"])
       (simp_all add: PIECE_TRANSFORMS_def place_simps)
  moreover have "Placement ''F'' [4, 5, 9, 10, 11] (0, 3) 270 False \<in> set (generated ex_july6)"
    by (rule generated_at[of 5 3 _ "[(0, 1), (0, 2), (1, 0), (1, 1), (1, 2)]"])
       (simp_all add: PIECE_TRANSFORMS_def place_simps)
  moreover have "Placement ''G'' [21, 22, 29, 36, 37] (3, 2) 0 False \<in> set (generated ex_july6)"
    by (rule generated_at[of 6 0 _ "[(0, 0), (0, 1), (1, 1), (2, 1), (2, 2)]"])
       (simp_all add: PIECE_TRANSFORMS_def place_simps)
  moreover have "Placement ''H'' [12, 19, 26, 27, 28] (2, 0) 0 False \<in> set (generated ex_july6)"
    by (rule generated_at[of 7 0 _ "[(0, 0), (1, 0), (2, 0), (2, 1), (2, 2)]"])
       (simp_all add: PIECE_TRANSFORMS_def place_simps)
  ultimately show ?thesis by (simp add: tiling_july6_def)
qed

lemma spare_generated: "set spare_july6 \<subseteq> set (generated ex_july6)"
proof -
  have "Placement ''H'' [19, 26, 33, 34, 35] (3, 0) 0 False \<in> set (generated ex_july6)"
    by (rule generated_at[of 7 0 _ "[(0, 0), (1, 0), (2, 0), (2, 1), (2, 2)]"])
       (simp_all add: PIECE_TRANSFORMS_def place_simps)
  moreover have "Placement ''A'' [12, 19, 26, 33, 34] (2, 0) 0 False \<in> set (generated ex_july6)"
    by (rule generated_at[of 0 0 _ "[(0, 0), (1, 0), (2, 0), (3, 0), (3, 1)]"])
       (simp_all add: PIECE_TRANSFORMS_def place_simps)
  moreover have "Placement ''A'' [27, 28, 29, 30, 34] (4, 1) 90 False \<in> set (generated ex_july6)"
    by (rule generated_at[of 0 1 _ "[(0, 0), (0, 1), (0, 2), (0, 3), (1, 0)]"])
       (simp_all add: PIECE_TRANSFORMS_def place_simps)
  moreover have "set spare_july6 \<subseteq> set tiling_july6 \<union>
      {Placement ''H'' [19, 26, 33, 34, 35] (3, 0) 0 False,
       Placement ''A'' [12, 19, 26, 33, 34] (2, 0) 0 False,
       Placement ''A'' [27, 28, 29, 30, 34] (4, 1) 90 False}"
    by (simp add: spare_july6_def tiling_july6_def)
  ultimately show ?thesis using tiling_generated by blast
qed


lemma bcols_july6:
  "{i. i < 43 \<and> BOARD_CELLS ! i \<notin> ex_july6} = {i. i < 43 \<and> i \<noteq> 6 \<and> i \<noteq> 17}"
proof -
  have c: "BOARD_CELLS ! 6 = (1, 0)" "BOARD_CELLS ! 17 = (2, 5)" by (simp_all add: BOARD_CELLS_eq)
  have "(BOARD_CELLS ! i \<notin> ex_july6) = (i \<noteq> 6 \<and> i \<noteq> 17)" if "i < 43" for i
  proof -
    have "(BOARD_CELLS ! i = BOARD_CELLS ! 6) = (i = 6)" "(BOARD_CELLS ! i = BOARD_CELLS ! 17) = (i = 17)"
      using that by (simp_all add: nth_eq_iff_index_eq[OF distinct_BOARD_CELLS] length_BOARD_CELLS)
    then show ?thesis by (simp add: ex_july6_eq c)
  qed
  then show ?thesis by auto
qed

lemma Max_bcols_july6: "Max {i. i < 43 \<and> i \<noteq> 6 \<and> i \<noteq> 17} = (42::nat)"
  by (rule Max_eqI) auto

lemma cols_july6_set: "set cols_july6 = {i. i < 51 \<and> i \<noteq> 6 \<and> i \<noteq> 17}"
proof -
  have "filter (\<lambda>i. i \<noteq> 6 \<and> i \<noteq> 17) [0..<51] = cols_july6" by code_simp
  then have "set cols_july6 = set (filter (\<lambda>i. i \<noteq> 6 \<and> i \<noteq> 17) [0..<51])" by simp
  also have "\<dots> = {i. i < 51 \<and> i \<noteq> 6 \<and> i \<noteq> 17}" by auto
  finally show ?thesis .
qed

lemma cols_july6_sorted: "sorted cols_july6 \<and> distinct cols_july6"
  by code_simp

lemma sorted_list_minus:
  fixes xs :: "nat list"
  assumes "sorted xs" "distinct xs"
  shows "sorted_list_of_set (set xs - A) = filter (\<lambda>x. x \<notin> A) xs"
proof -
  let ?ys = "filter (\<lambda>x. x \<notin> A) xs"
  have e: "set xs - A = set ?ys" by auto
  have "sorted ?ys" "distinct ?ys" using assms by (simp_all add: sorted_wrt_filter)
  then have "sorted_list_of_set (set ?ys) = ?ys"
    by (rule sorted_list_of_set.idem_if_sorted_distinct)
  then show ?thesis unfolding e .
qed

lemma ctx_july6:
  assumes "make_ctx pls ex_july6 = Inr cx"
  shows "placements cx = pls"
    and "board_cols cx = {i. i < 43 \<and> i \<noteq> 6 \<and> i \<noteq> 17}"
    and "piece_cols cx = map_of (piece_col_items 42)"
    and "universe cx = {i. i < 51 \<and> i \<noteq> 6 \<and> i \<noteq> 17}"
    and "sorted_list_of_set (universe cx - A) = filter (\<lambda>c. c \<notin> A) cols_july6"
proof -
  note f = make_ctx_Inr[OF assms, unfolded bcols_july6 Max_bcols_july6]
  show "placements cx = pls" by (rule f(2))
  show "board_cols cx = {i. i < 43 \<and> i \<noteq> 6 \<and> i \<noteq> 17}" by (rule f(3))
  show "piece_cols cx = map_of (piece_col_items 42)" by (rule f(4))
  show u: "universe cx = {i. i < 51 \<and> i \<noteq> 6 \<and> i \<noteq> 17}"
    unfolding f(5) piece_col_values by auto
  show "sorted_list_of_set (universe cx - A) = filter (\<lambda>c. c \<notin> A) cols_july6"
    unfolding u cols_july6_set[symmetric]
    using cols_july6_sorted by (simp add: sorted_list_minus)
qed

lemma make_ctx_july6:
  assumes "\<forall>pl \<in> set pls. piece pl \<in> fst ` set PIECES"
  shows "\<exists>cx. make_ctx pls ex_july6 = Inr cx"
  using make_ctx_returns[OF bcols_nonempty[OF excluded_ok_july6] assms] .

lemma choose_col_july6:
  assumes cx: "make_ctx pls ex_july6 = Inr cx" and u: "used s = u"
    and fr: "filter (\<lambda>r. set (squares (pls ! r)) \<inter> u = {}) [0..<length pls] = fr"
  shows "choose_col sorted_list_of_set cx s =
           min_by (\<lambda>c. Inr (length (filter (\<lambda>r. c \<in> rc_of cx r) fr)))
                  (filter (\<lambda>c. c \<notin> u) cols_july6)"
  unfolding choose_col_def u ctx_july6(5)[OF cx]
proof (rule min_by_cong)
  fix x assume "x \<in> set (filter (\<lambda>c. c \<notin> u) cols_july6)"
  then have "x \<in> universe cx" by (simp add: ctx_july6(4)[OF cx] cols_july6_set)
  from slack_eq[OF cx this] free_rows_filter[OF cx this fr]
  show "slack cx u x = Inr (length (filter (\<lambda>r. x \<in> rc_of cx r) fr))" by simp
qed

lemma col_to_rows_july6:
  assumes cx: "make_ctx pls ex_july6 = Inr cx" and c: "c < 51" "c \<noteq> 6" "c \<noteq> 17"
  shows "col_to_rows cx c = Some (filter (\<lambda>idx. c \<in> rc_of cx idx) [0..<length pls])"
  using c by (simp add: col_to_rows_char[OF cx] ctx_july6(4)[OF cx])


lemma search_enters:
  assumes "m = Suc n" "used s \<noteq> universe cx" "choose_col iter cx s = Inr col"
    and "col_to_rows cx col = Some rows"
  shows "search m iter cx s = for_rows n iter cx rows s"
  using assms by (simp add: py_lookup_def)

lemma branch_success:
  assumes "m = Suc n" "used s \<noteq> universe cx" "choose_col iter cx s = Inr col"
    and "col_to_rows cx col = Some (row # rows)"
    and "row_cols cx row = Inr rc" "rc \<inter> used s = {}"
    and "search n iter cx \<lparr>sol = sol s @ [row], used = used s \<union> rc, tries = tries s + 1\<rparr>
           = Some (Inr (True, s'))"
  shows "search m iter cx s = Some (Inr (True, s'))"
    and "for_rows n iter cx (row # rows) s = Some (Inr (True, s'))"
proof -
  have e: "s\<lparr>tries := tries s + 1, sol := sol s @ [row], used := used s \<union> rc\<rparr>
        = \<lparr>sol = sol s @ [row], used = used s \<union> rc, tries = tries s + 1\<rparr>" by simp
  show f: "for_rows n iter cx (row # rows) s = Some (Inr (True, s'))"
    unfolding for_rows_push[OF assms(5,6)] e assms(7) by simp
  show "search m iter cx s = Some (Inr (True, s'))"
    unfolding search_enters[OF assms(1-4)] by (rule f)
qed


lemma upt8: "[0..<8] = [0, 1, 2, 3, 4, 5, 6, 7]"
  by code_simp

lemma upt10: "[0..<10] = [0, 1, 2, 3, 4, 5, 6, 7, 8, 9]"
  by code_simp

lemma tiling_rows:
  assumes cx: "make_ctx tiling_july6 ex_july6 = Inr cx"
  shows "row_cols cx 0 = Inr {0, 1, 7, 13, 20, 43}"
    and "row_cols cx 1 = Inr {18, 24, 25, 32, 39, 44}"
    and "row_cols cx 2 = Inr {16, 23, 30, 31, 38, 45}"
    and "row_cols cx 3 = Inr {2, 3, 8, 14, 15, 46}"
    and "row_cols cx 4 = Inr {33, 34, 35, 40, 41, 42, 47}"
    and "row_cols cx 5 = Inr {4, 5, 9, 10, 11, 48}"
    and "row_cols cx 6 = Inr {21, 22, 29, 36, 37, 49}"
    and "row_cols cx 7 = Inr {12, 19, 26, 27, 28, 50}"
  by (auto simp: row_cols_Inr ctx_july6(1-3)[OF cx] tiling_july6_def piece_col_items_def)

lemma tiling_rc:
  assumes cx: "make_ctx tiling_july6 ex_july6 = Inr cx"
  shows "rc_of cx 0 = {0, 1, 7, 13, 20, 43}"
    and "rc_of cx 1 = {18, 24, 25, 32, 39, 44}"
    and "rc_of cx 2 = {16, 23, 30, 31, 38, 45}"
    and "rc_of cx 3 = {2, 3, 8, 14, 15, 46}"
    and "rc_of cx 4 = {33, 34, 35, 40, 41, 42, 47}"
    and "rc_of cx 5 = {4, 5, 9, 10, 11, 48}"
    and "rc_of cx 6 = {21, 22, 29, 36, 37, 49}"
    and "rc_of cx 7 = {12, 19, 26, 27, 28, 50}"
  unfolding rc_of_def tiling_rows[OF cx] by simp_all

lemma tiling_run:
  assumes cx: "make_ctx tiling_july6 ex_july6 = Inr cx"
  shows "search 9 sorted_list_of_set cx \<lparr>sol = [], used = {}, tries = 0\<rparr>
           = Some (Inr (True, \<lparr>sol = [0, 3, 5, 7, 2, 1, 6, 4], used = universe cx, tries = 8\<rparr>))"
    and "for_rows 8 sorted_list_of_set cx [0] \<lparr>sol = [], used = {}, tries = 0\<rparr>
           = Some (Inr (True, \<lparr>sol = [0, 3, 5, 7, 2, 1, 6, 4], used = universe cx, tries = 8\<rparr>))"
proof -
  note rc = tiling_rc[OF cx] tiling_rc(2)[OF cx, unfolded One_nat_def]
  note rows = tiling_rows[OF cx]
  have u: "universe cx = set cols_july6"
    by (simp add: ctx_july6(4)[OF cx] cols_july6_set)
  have len: "length tiling_july6 = 8" by (simp add: tiling_july6_def)
  have last: "42 \<in> universe cx" by (simp add: ctx_july6(4)[OF cx])
  let ?fin = "\<lparr>sol = [0, 3, 5, 7, 2, 1, 6, 4], used = universe cx, tries = 8\<rparr>"
  have r8: "search 1 sorted_list_of_set cx \<lparr>sol = [0, 3, 5, 7, 2, 1, 6, 4], used = set cols_july6, tries = 8\<rparr> = Some (Inr (True, ?fin))"
    by (simp add: u)
  have fr: "filter (\<lambda>r. set (squares (tiling_july6 ! r)) \<inter> {0, 1, 2, 3, 4, 5, 7, 8, 9, 10, 11, 12, 13, 14, 15, 16, 18, 19, 20, 21, 22, 23, 24, 25, 26, 27, 28, 29, 30, 31, 32, 36, 37, 38, 39, 43, 44, 45, 46, 48, 49, 50} = {}) [0..<length tiling_july6] = [4]"
    by (simp add: tiling_july6_def upt8)
  have ch: "choose_col sorted_list_of_set cx \<lparr>sol = [0, 3, 5, 7, 2, 1, 6], used = {0, 1, 2, 3, 4, 5, 7, 8, 9, 10, 11, 12, 13, 14, 15, 16, 18, 19, 20, 21, 22, 23, 24, 25, 26, 27, 28, 29, 30, 31, 32, 36, 37, 38, 39, 43, 44, 45, 46, 48, 49, 50}, tries = 7\<rparr> = Inr 33"
    by (simp add: choose_col_july6[OF cx _ fr] cols_july6_def min_by_def rc)
  have "42 \<notin> used \<lparr>sol = [0, 3, 5, 7, 2, 1, 6], used = {0, 1, 2, 3, 4, 5, 7, 8, 9, 10, 11, 12, 13, 14, 15, 16, 18, 19, 20, 21, 22, 23, 24, 25, 26, 27, 28, 29, 30, 31, 32, 36, 37, 38, 39, 43, 44, 45, 46, 48, 49, 50}, tries = 7\<rparr>" by simp
  with last have ne: "used \<lparr>sol = [0, 3, 5, 7, 2, 1, 6], used = {0, 1, 2, 3, 4, 5, 7, 8, 9, 10, 11, 12, 13, 14, 15, 16, 18, 19, 20, 21, 22, 23, 24, 25, 26, 27, 28, 29, 30, 31, 32, 36, 37, 38, 39, 43, 44, 45, 46, 48, 49, 50}, tries = 7\<rparr> \<noteq> universe cx" by blast
  have cr: "col_to_rows cx 33 = Some [4]"
    by (simp add: col_to_rows_july6[OF cx] len upt8 rc)
  have dj: "{33, 34, 35, 40, 41, 42, 47} \<inter> used \<lparr>sol = [0, 3, 5, 7, 2, 1, 6], used = {0, 1, 2, 3, 4, 5, 7, 8, 9, 10, 11, 12, 13, 14, 15, 16, 18, 19, 20, 21, 22, 23, 24, 25, 26, 27, 28, 29, 30, 31, 32, 36, 37, 38, 39, 43, 44, 45, 46, 48, 49, 50}, tries = 7\<rparr> = {}" by simp
  have e: "\<lparr>sol = sol \<lparr>sol = [0, 3, 5, 7, 2, 1, 6], used = {0, 1, 2, 3, 4, 5, 7, 8, 9, 10, 11, 12, 13, 14, 15, 16, 18, 19, 20, 21, 22, 23, 24, 25, 26, 27, 28, 29, 30, 31, 32, 36, 37, 38, 39, 43, 44, 45, 46, 48, 49, 50}, tries = 7\<rparr> @ [4], used = used \<lparr>sol = [0, 3, 5, 7, 2, 1, 6], used = {0, 1, 2, 3, 4, 5, 7, 8, 9, 10, 11, 12, 13, 14, 15, 16, 18, 19, 20, 21, 22, 23, 24, 25, 26, 27, 28, 29, 30, 31, 32, 36, 37, 38, 39, 43, 44, 45, 46, 48, 49, 50}, tries = 7\<rparr> \<union> {33, 34, 35, 40, 41, 42, 47}, tries = tries \<lparr>sol = [0, 3, 5, 7, 2, 1, 6], used = {0, 1, 2, 3, 4, 5, 7, 8, 9, 10, 11, 12, 13, 14, 15, 16, 18, 19, 20, 21, 22, 23, 24, 25, 26, 27, 28, 29, 30, 31, 32, 36, 37, 38, 39, 43, 44, 45, 46, 48, 49, 50}, tries = 7\<rparr> + 1\<rparr>
        = \<lparr>sol = [0, 3, 5, 7, 2, 1, 6, 4], used = set cols_july6, tries = 8\<rparr>"
    by (auto simp: cols_july6_def)
  have nx: "search 1 sorted_list_of_set cx
      \<lparr>sol = sol \<lparr>sol = [0, 3, 5, 7, 2, 1, 6], used = {0, 1, 2, 3, 4, 5, 7, 8, 9, 10, 11, 12, 13, 14, 15, 16, 18, 19, 20, 21, 22, 23, 24, 25, 26, 27, 28, 29, 30, 31, 32, 36, 37, 38, 39, 43, 44, 45, 46, 48, 49, 50}, tries = 7\<rparr> @ [4], used = used \<lparr>sol = [0, 3, 5, 7, 2, 1, 6], used = {0, 1, 2, 3, 4, 5, 7, 8, 9, 10, 11, 12, 13, 14, 15, 16, 18, 19, 20, 21, 22, 23, 24, 25, 26, 27, 28, 29, 30, 31, 32, 36, 37, 38, 39, 43, 44, 45, 46, 48, 49, 50}, tries = 7\<rparr> \<union> {33, 34, 35, 40, 41, 42, 47}, tries = tries \<lparr>sol = [0, 3, 5, 7, 2, 1, 6], used = {0, 1, 2, 3, 4, 5, 7, 8, 9, 10, 11, 12, 13, 14, 15, 16, 18, 19, 20, 21, 22, 23, 24, 25, 26, 27, 28, 29, 30, 31, 32, 36, 37, 38, 39, 43, 44, 45, 46, 48, 49, 50}, tries = 7\<rparr> + 1\<rparr>
        = Some (Inr (True, ?fin))"
    unfolding e by (rule r8)
  have r7: "search 2 sorted_list_of_set cx \<lparr>sol = [0, 3, 5, 7, 2, 1, 6], used = {0, 1, 2, 3, 4, 5, 7, 8, 9, 10, 11, 12, 13, 14, 15, 16, 18, 19, 20, 21, 22, 23, 24, 25, 26, 27, 28, 29, 30, 31, 32, 36, 37, 38, 39, 43, 44, 45, 46, 48, 49, 50}, tries = 7\<rparr> = Some (Inr (True, ?fin))"
    by (rule branch_success(1)[OF _ ne ch cr rows(5) dj nx]) simp
  have fr: "filter (\<lambda>r. set (squares (tiling_july6 ! r)) \<inter> {0, 1, 2, 3, 4, 5, 7, 8, 9, 10, 11, 12, 13, 14, 15, 16, 18, 19, 20, 23, 24, 25, 26, 27, 28, 30, 31, 32, 38, 39, 43, 44, 45, 46, 48, 50} = {}) [0..<length tiling_july6] = [4, 6]"
    by (simp add: tiling_july6_def upt8)
  have ch: "choose_col sorted_list_of_set cx \<lparr>sol = [0, 3, 5, 7, 2, 1], used = {0, 1, 2, 3, 4, 5, 7, 8, 9, 10, 11, 12, 13, 14, 15, 16, 18, 19, 20, 23, 24, 25, 26, 27, 28, 30, 31, 32, 38, 39, 43, 44, 45, 46, 48, 50}, tries = 6\<rparr> = Inr 21"
    by (simp add: choose_col_july6[OF cx _ fr] cols_july6_def min_by_def rc)
  have "42 \<notin> used \<lparr>sol = [0, 3, 5, 7, 2, 1], used = {0, 1, 2, 3, 4, 5, 7, 8, 9, 10, 11, 12, 13, 14, 15, 16, 18, 19, 20, 23, 24, 25, 26, 27, 28, 30, 31, 32, 38, 39, 43, 44, 45, 46, 48, 50}, tries = 6\<rparr>" by simp
  with last have ne: "used \<lparr>sol = [0, 3, 5, 7, 2, 1], used = {0, 1, 2, 3, 4, 5, 7, 8, 9, 10, 11, 12, 13, 14, 15, 16, 18, 19, 20, 23, 24, 25, 26, 27, 28, 30, 31, 32, 38, 39, 43, 44, 45, 46, 48, 50}, tries = 6\<rparr> \<noteq> universe cx" by blast
  have cr: "col_to_rows cx 21 = Some [6]"
    by (simp add: col_to_rows_july6[OF cx] len upt8 rc)
  have dj: "{21, 22, 29, 36, 37, 49} \<inter> used \<lparr>sol = [0, 3, 5, 7, 2, 1], used = {0, 1, 2, 3, 4, 5, 7, 8, 9, 10, 11, 12, 13, 14, 15, 16, 18, 19, 20, 23, 24, 25, 26, 27, 28, 30, 31, 32, 38, 39, 43, 44, 45, 46, 48, 50}, tries = 6\<rparr> = {}" by simp
  have e: "\<lparr>sol = sol \<lparr>sol = [0, 3, 5, 7, 2, 1], used = {0, 1, 2, 3, 4, 5, 7, 8, 9, 10, 11, 12, 13, 14, 15, 16, 18, 19, 20, 23, 24, 25, 26, 27, 28, 30, 31, 32, 38, 39, 43, 44, 45, 46, 48, 50}, tries = 6\<rparr> @ [6], used = used \<lparr>sol = [0, 3, 5, 7, 2, 1], used = {0, 1, 2, 3, 4, 5, 7, 8, 9, 10, 11, 12, 13, 14, 15, 16, 18, 19, 20, 23, 24, 25, 26, 27, 28, 30, 31, 32, 38, 39, 43, 44, 45, 46, 48, 50}, tries = 6\<rparr> \<union> {21, 22, 29, 36, 37, 49}, tries = tries \<lparr>sol = [0, 3, 5, 7, 2, 1], used = {0, 1, 2, 3, 4, 5, 7, 8, 9, 10, 11, 12, 13, 14, 15, 16, 18, 19, 20, 23, 24, 25, 26, 27, 28, 30, 31, 32, 38, 39, 43, 44, 45, 46, 48, 50}, tries = 6\<rparr> + 1\<rparr>
        = \<lparr>sol = [0, 3, 5, 7, 2, 1, 6], used = {0, 1, 2, 3, 4, 5, 7, 8, 9, 10, 11, 12, 13, 14, 15, 16, 18, 19, 20, 21, 22, 23, 24, 25, 26, 27, 28, 29, 30, 31, 32, 36, 37, 38, 39, 43, 44, 45, 46, 48, 49, 50}, tries = 7\<rparr>"
    by auto
  have nx: "search 2 sorted_list_of_set cx
      \<lparr>sol = sol \<lparr>sol = [0, 3, 5, 7, 2, 1], used = {0, 1, 2, 3, 4, 5, 7, 8, 9, 10, 11, 12, 13, 14, 15, 16, 18, 19, 20, 23, 24, 25, 26, 27, 28, 30, 31, 32, 38, 39, 43, 44, 45, 46, 48, 50}, tries = 6\<rparr> @ [6], used = used \<lparr>sol = [0, 3, 5, 7, 2, 1], used = {0, 1, 2, 3, 4, 5, 7, 8, 9, 10, 11, 12, 13, 14, 15, 16, 18, 19, 20, 23, 24, 25, 26, 27, 28, 30, 31, 32, 38, 39, 43, 44, 45, 46, 48, 50}, tries = 6\<rparr> \<union> {21, 22, 29, 36, 37, 49}, tries = tries \<lparr>sol = [0, 3, 5, 7, 2, 1], used = {0, 1, 2, 3, 4, 5, 7, 8, 9, 10, 11, 12, 13, 14, 15, 16, 18, 19, 20, 23, 24, 25, 26, 27, 28, 30, 31, 32, 38, 39, 43, 44, 45, 46, 48, 50}, tries = 6\<rparr> + 1\<rparr>
        = Some (Inr (True, ?fin))"
    unfolding e by (rule r7)
  have r6: "search 3 sorted_list_of_set cx \<lparr>sol = [0, 3, 5, 7, 2, 1], used = {0, 1, 2, 3, 4, 5, 7, 8, 9, 10, 11, 12, 13, 14, 15, 16, 18, 19, 20, 23, 24, 25, 26, 27, 28, 30, 31, 32, 38, 39, 43, 44, 45, 46, 48, 50}, tries = 6\<rparr> = Some (Inr (True, ?fin))"
    by (rule branch_success(1)[OF _ ne ch cr rows(7) dj nx]) simp
  have fr: "filter (\<lambda>r. set (squares (tiling_july6 ! r)) \<inter> {0, 1, 2, 3, 4, 5, 7, 8, 9, 10, 11, 12, 13, 14, 15, 16, 19, 20, 23, 26, 27, 28, 30, 31, 38, 43, 45, 46, 48, 50} = {}) [0..<length tiling_july6] = [1, 4, 6]"
    by (simp add: tiling_july6_def upt8)
  have ch: "choose_col sorted_list_of_set cx \<lparr>sol = [0, 3, 5, 7, 2], used = {0, 1, 2, 3, 4, 5, 7, 8, 9, 10, 11, 12, 13, 14, 15, 16, 19, 20, 23, 26, 27, 28, 30, 31, 38, 43, 45, 46, 48, 50}, tries = 5\<rparr> = Inr 18"
    by (simp add: choose_col_july6[OF cx _ fr] cols_july6_def min_by_def rc)
  have "42 \<notin> used \<lparr>sol = [0, 3, 5, 7, 2], used = {0, 1, 2, 3, 4, 5, 7, 8, 9, 10, 11, 12, 13, 14, 15, 16, 19, 20, 23, 26, 27, 28, 30, 31, 38, 43, 45, 46, 48, 50}, tries = 5\<rparr>" by simp
  with last have ne: "used \<lparr>sol = [0, 3, 5, 7, 2], used = {0, 1, 2, 3, 4, 5, 7, 8, 9, 10, 11, 12, 13, 14, 15, 16, 19, 20, 23, 26, 27, 28, 30, 31, 38, 43, 45, 46, 48, 50}, tries = 5\<rparr> \<noteq> universe cx" by blast
  have cr: "col_to_rows cx 18 = Some [1]"
    by (simp add: col_to_rows_july6[OF cx] len upt8 rc)
  have dj: "{18, 24, 25, 32, 39, 44} \<inter> used \<lparr>sol = [0, 3, 5, 7, 2], used = {0, 1, 2, 3, 4, 5, 7, 8, 9, 10, 11, 12, 13, 14, 15, 16, 19, 20, 23, 26, 27, 28, 30, 31, 38, 43, 45, 46, 48, 50}, tries = 5\<rparr> = {}" by simp
  have e: "\<lparr>sol = sol \<lparr>sol = [0, 3, 5, 7, 2], used = {0, 1, 2, 3, 4, 5, 7, 8, 9, 10, 11, 12, 13, 14, 15, 16, 19, 20, 23, 26, 27, 28, 30, 31, 38, 43, 45, 46, 48, 50}, tries = 5\<rparr> @ [1], used = used \<lparr>sol = [0, 3, 5, 7, 2], used = {0, 1, 2, 3, 4, 5, 7, 8, 9, 10, 11, 12, 13, 14, 15, 16, 19, 20, 23, 26, 27, 28, 30, 31, 38, 43, 45, 46, 48, 50}, tries = 5\<rparr> \<union> {18, 24, 25, 32, 39, 44}, tries = tries \<lparr>sol = [0, 3, 5, 7, 2], used = {0, 1, 2, 3, 4, 5, 7, 8, 9, 10, 11, 12, 13, 14, 15, 16, 19, 20, 23, 26, 27, 28, 30, 31, 38, 43, 45, 46, 48, 50}, tries = 5\<rparr> + 1\<rparr>
        = \<lparr>sol = [0, 3, 5, 7, 2, 1], used = {0, 1, 2, 3, 4, 5, 7, 8, 9, 10, 11, 12, 13, 14, 15, 16, 18, 19, 20, 23, 24, 25, 26, 27, 28, 30, 31, 32, 38, 39, 43, 44, 45, 46, 48, 50}, tries = 6\<rparr>"
    by auto
  have nx: "search 3 sorted_list_of_set cx
      \<lparr>sol = sol \<lparr>sol = [0, 3, 5, 7, 2], used = {0, 1, 2, 3, 4, 5, 7, 8, 9, 10, 11, 12, 13, 14, 15, 16, 19, 20, 23, 26, 27, 28, 30, 31, 38, 43, 45, 46, 48, 50}, tries = 5\<rparr> @ [1], used = used \<lparr>sol = [0, 3, 5, 7, 2], used = {0, 1, 2, 3, 4, 5, 7, 8, 9, 10, 11, 12, 13, 14, 15, 16, 19, 20, 23, 26, 27, 28, 30, 31, 38, 43, 45, 46, 48, 50}, tries = 5\<rparr> \<union> {18, 24, 25, 32, 39, 44}, tries = tries \<lparr>sol = [0, 3, 5, 7, 2], used = {0, 1, 2, 3, 4, 5, 7, 8, 9, 10, 11, 12, 13, 14, 15, 16, 19, 20, 23, 26, 27, 28, 30, 31, 38, 43, 45, 46, 48, 50}, tries = 5\<rparr> + 1\<rparr>
        = Some (Inr (True, ?fin))"
    unfolding e by (rule r6)
  have r5: "search 4 sorted_list_of_set cx \<lparr>sol = [0, 3, 5, 7, 2], used = {0, 1, 2, 3, 4, 5, 7, 8, 9, 10, 11, 12, 13, 14, 15, 16, 19, 20, 23, 26, 27, 28, 30, 31, 38, 43, 45, 46, 48, 50}, tries = 5\<rparr> = Some (Inr (True, ?fin))"
    by (rule branch_success(1)[OF _ ne ch cr rows(2) dj nx]) simp
  have fr: "filter (\<lambda>r. set (squares (tiling_july6 ! r)) \<inter> {0, 1, 2, 3, 4, 5, 7, 8, 9, 10, 11, 12, 13, 14, 15, 19, 20, 26, 27, 28, 43, 46, 48, 50} = {}) [0..<length tiling_july6] = [1, 2, 4, 6]"
    by (simp add: tiling_july6_def upt8)
  have ch: "choose_col sorted_list_of_set cx \<lparr>sol = [0, 3, 5, 7], used = {0, 1, 2, 3, 4, 5, 7, 8, 9, 10, 11, 12, 13, 14, 15, 19, 20, 26, 27, 28, 43, 46, 48, 50}, tries = 4\<rparr> = Inr 16"
    by (simp add: choose_col_july6[OF cx _ fr] cols_july6_def min_by_def rc)
  have "42 \<notin> used \<lparr>sol = [0, 3, 5, 7], used = {0, 1, 2, 3, 4, 5, 7, 8, 9, 10, 11, 12, 13, 14, 15, 19, 20, 26, 27, 28, 43, 46, 48, 50}, tries = 4\<rparr>" by simp
  with last have ne: "used \<lparr>sol = [0, 3, 5, 7], used = {0, 1, 2, 3, 4, 5, 7, 8, 9, 10, 11, 12, 13, 14, 15, 19, 20, 26, 27, 28, 43, 46, 48, 50}, tries = 4\<rparr> \<noteq> universe cx" by blast
  have cr: "col_to_rows cx 16 = Some [2]"
    by (simp add: col_to_rows_july6[OF cx] len upt8 rc)
  have dj: "{16, 23, 30, 31, 38, 45} \<inter> used \<lparr>sol = [0, 3, 5, 7], used = {0, 1, 2, 3, 4, 5, 7, 8, 9, 10, 11, 12, 13, 14, 15, 19, 20, 26, 27, 28, 43, 46, 48, 50}, tries = 4\<rparr> = {}" by simp
  have e: "\<lparr>sol = sol \<lparr>sol = [0, 3, 5, 7], used = {0, 1, 2, 3, 4, 5, 7, 8, 9, 10, 11, 12, 13, 14, 15, 19, 20, 26, 27, 28, 43, 46, 48, 50}, tries = 4\<rparr> @ [2], used = used \<lparr>sol = [0, 3, 5, 7], used = {0, 1, 2, 3, 4, 5, 7, 8, 9, 10, 11, 12, 13, 14, 15, 19, 20, 26, 27, 28, 43, 46, 48, 50}, tries = 4\<rparr> \<union> {16, 23, 30, 31, 38, 45}, tries = tries \<lparr>sol = [0, 3, 5, 7], used = {0, 1, 2, 3, 4, 5, 7, 8, 9, 10, 11, 12, 13, 14, 15, 19, 20, 26, 27, 28, 43, 46, 48, 50}, tries = 4\<rparr> + 1\<rparr>
        = \<lparr>sol = [0, 3, 5, 7, 2], used = {0, 1, 2, 3, 4, 5, 7, 8, 9, 10, 11, 12, 13, 14, 15, 16, 19, 20, 23, 26, 27, 28, 30, 31, 38, 43, 45, 46, 48, 50}, tries = 5\<rparr>"
    by auto
  have nx: "search 4 sorted_list_of_set cx
      \<lparr>sol = sol \<lparr>sol = [0, 3, 5, 7], used = {0, 1, 2, 3, 4, 5, 7, 8, 9, 10, 11, 12, 13, 14, 15, 19, 20, 26, 27, 28, 43, 46, 48, 50}, tries = 4\<rparr> @ [2], used = used \<lparr>sol = [0, 3, 5, 7], used = {0, 1, 2, 3, 4, 5, 7, 8, 9, 10, 11, 12, 13, 14, 15, 19, 20, 26, 27, 28, 43, 46, 48, 50}, tries = 4\<rparr> \<union> {16, 23, 30, 31, 38, 45}, tries = tries \<lparr>sol = [0, 3, 5, 7], used = {0, 1, 2, 3, 4, 5, 7, 8, 9, 10, 11, 12, 13, 14, 15, 19, 20, 26, 27, 28, 43, 46, 48, 50}, tries = 4\<rparr> + 1\<rparr>
        = Some (Inr (True, ?fin))"
    unfolding e by (rule r5)
  have r4: "search 5 sorted_list_of_set cx \<lparr>sol = [0, 3, 5, 7], used = {0, 1, 2, 3, 4, 5, 7, 8, 9, 10, 11, 12, 13, 14, 15, 19, 20, 26, 27, 28, 43, 46, 48, 50}, tries = 4\<rparr> = Some (Inr (True, ?fin))"
    by (rule branch_success(1)[OF _ ne ch cr rows(3) dj nx]) simp
  have fr: "filter (\<lambda>r. set (squares (tiling_july6 ! r)) \<inter> {0, 1, 2, 3, 4, 5, 7, 8, 9, 10, 11, 13, 14, 15, 20, 43, 46, 48} = {}) [0..<length tiling_july6] = [1, 2, 4, 6, 7]"
    by (simp add: tiling_july6_def upt8)
  have ch: "choose_col sorted_list_of_set cx \<lparr>sol = [0, 3, 5], used = {0, 1, 2, 3, 4, 5, 7, 8, 9, 10, 11, 13, 14, 15, 20, 43, 46, 48}, tries = 3\<rparr> = Inr 12"
    by (simp add: choose_col_july6[OF cx _ fr] cols_july6_def min_by_def rc)
  have "42 \<notin> used \<lparr>sol = [0, 3, 5], used = {0, 1, 2, 3, 4, 5, 7, 8, 9, 10, 11, 13, 14, 15, 20, 43, 46, 48}, tries = 3\<rparr>" by simp
  with last have ne: "used \<lparr>sol = [0, 3, 5], used = {0, 1, 2, 3, 4, 5, 7, 8, 9, 10, 11, 13, 14, 15, 20, 43, 46, 48}, tries = 3\<rparr> \<noteq> universe cx" by blast
  have cr: "col_to_rows cx 12 = Some [7]"
    by (simp add: col_to_rows_july6[OF cx] len upt8 rc)
  have dj: "{12, 19, 26, 27, 28, 50} \<inter> used \<lparr>sol = [0, 3, 5], used = {0, 1, 2, 3, 4, 5, 7, 8, 9, 10, 11, 13, 14, 15, 20, 43, 46, 48}, tries = 3\<rparr> = {}" by simp
  have e: "\<lparr>sol = sol \<lparr>sol = [0, 3, 5], used = {0, 1, 2, 3, 4, 5, 7, 8, 9, 10, 11, 13, 14, 15, 20, 43, 46, 48}, tries = 3\<rparr> @ [7], used = used \<lparr>sol = [0, 3, 5], used = {0, 1, 2, 3, 4, 5, 7, 8, 9, 10, 11, 13, 14, 15, 20, 43, 46, 48}, tries = 3\<rparr> \<union> {12, 19, 26, 27, 28, 50}, tries = tries \<lparr>sol = [0, 3, 5], used = {0, 1, 2, 3, 4, 5, 7, 8, 9, 10, 11, 13, 14, 15, 20, 43, 46, 48}, tries = 3\<rparr> + 1\<rparr>
        = \<lparr>sol = [0, 3, 5, 7], used = {0, 1, 2, 3, 4, 5, 7, 8, 9, 10, 11, 12, 13, 14, 15, 19, 20, 26, 27, 28, 43, 46, 48, 50}, tries = 4\<rparr>"
    by auto
  have nx: "search 5 sorted_list_of_set cx
      \<lparr>sol = sol \<lparr>sol = [0, 3, 5], used = {0, 1, 2, 3, 4, 5, 7, 8, 9, 10, 11, 13, 14, 15, 20, 43, 46, 48}, tries = 3\<rparr> @ [7], used = used \<lparr>sol = [0, 3, 5], used = {0, 1, 2, 3, 4, 5, 7, 8, 9, 10, 11, 13, 14, 15, 20, 43, 46, 48}, tries = 3\<rparr> \<union> {12, 19, 26, 27, 28, 50}, tries = tries \<lparr>sol = [0, 3, 5], used = {0, 1, 2, 3, 4, 5, 7, 8, 9, 10, 11, 13, 14, 15, 20, 43, 46, 48}, tries = 3\<rparr> + 1\<rparr>
        = Some (Inr (True, ?fin))"
    unfolding e by (rule r4)
  have r3: "search 6 sorted_list_of_set cx \<lparr>sol = [0, 3, 5], used = {0, 1, 2, 3, 4, 5, 7, 8, 9, 10, 11, 13, 14, 15, 20, 43, 46, 48}, tries = 3\<rparr> = Some (Inr (True, ?fin))"
    by (rule branch_success(1)[OF _ ne ch cr rows(8) dj nx]) simp
  have fr: "filter (\<lambda>r. set (squares (tiling_july6 ! r)) \<inter> {0, 1, 2, 3, 7, 8, 13, 14, 15, 20, 43, 46} = {}) [0..<length tiling_july6] = [1, 2, 4, 5, 6, 7]"
    by (simp add: tiling_july6_def upt8)
  have ch: "choose_col sorted_list_of_set cx \<lparr>sol = [0, 3], used = {0, 1, 2, 3, 7, 8, 13, 14, 15, 20, 43, 46}, tries = 2\<rparr> = Inr 4"
    by (simp add: choose_col_july6[OF cx _ fr] cols_july6_def min_by_def rc)
  have "42 \<notin> used \<lparr>sol = [0, 3], used = {0, 1, 2, 3, 7, 8, 13, 14, 15, 20, 43, 46}, tries = 2\<rparr>" by simp
  with last have ne: "used \<lparr>sol = [0, 3], used = {0, 1, 2, 3, 7, 8, 13, 14, 15, 20, 43, 46}, tries = 2\<rparr> \<noteq> universe cx" by blast
  have cr: "col_to_rows cx 4 = Some [5]"
    by (simp add: col_to_rows_july6[OF cx] len upt8 rc)
  have dj: "{4, 5, 9, 10, 11, 48} \<inter> used \<lparr>sol = [0, 3], used = {0, 1, 2, 3, 7, 8, 13, 14, 15, 20, 43, 46}, tries = 2\<rparr> = {}" by simp
  have e: "\<lparr>sol = sol \<lparr>sol = [0, 3], used = {0, 1, 2, 3, 7, 8, 13, 14, 15, 20, 43, 46}, tries = 2\<rparr> @ [5], used = used \<lparr>sol = [0, 3], used = {0, 1, 2, 3, 7, 8, 13, 14, 15, 20, 43, 46}, tries = 2\<rparr> \<union> {4, 5, 9, 10, 11, 48}, tries = tries \<lparr>sol = [0, 3], used = {0, 1, 2, 3, 7, 8, 13, 14, 15, 20, 43, 46}, tries = 2\<rparr> + 1\<rparr>
        = \<lparr>sol = [0, 3, 5], used = {0, 1, 2, 3, 4, 5, 7, 8, 9, 10, 11, 13, 14, 15, 20, 43, 46, 48}, tries = 3\<rparr>"
    by auto
  have nx: "search 6 sorted_list_of_set cx
      \<lparr>sol = sol \<lparr>sol = [0, 3], used = {0, 1, 2, 3, 7, 8, 13, 14, 15, 20, 43, 46}, tries = 2\<rparr> @ [5], used = used \<lparr>sol = [0, 3], used = {0, 1, 2, 3, 7, 8, 13, 14, 15, 20, 43, 46}, tries = 2\<rparr> \<union> {4, 5, 9, 10, 11, 48}, tries = tries \<lparr>sol = [0, 3], used = {0, 1, 2, 3, 7, 8, 13, 14, 15, 20, 43, 46}, tries = 2\<rparr> + 1\<rparr>
        = Some (Inr (True, ?fin))"
    unfolding e by (rule r3)
  have r2: "search 7 sorted_list_of_set cx \<lparr>sol = [0, 3], used = {0, 1, 2, 3, 7, 8, 13, 14, 15, 20, 43, 46}, tries = 2\<rparr> = Some (Inr (True, ?fin))"
    by (rule branch_success(1)[OF _ ne ch cr rows(6) dj nx]) simp
  have fr: "filter (\<lambda>r. set (squares (tiling_july6 ! r)) \<inter> {0, 1, 7, 13, 20, 43} = {}) [0..<length tiling_july6] = [1, 2, 3, 4, 5, 6, 7]"
    by (simp add: tiling_july6_def upt8)
  have ch: "choose_col sorted_list_of_set cx \<lparr>sol = [0], used = {0, 1, 7, 13, 20, 43}, tries = 1\<rparr> = Inr 2"
    by (simp add: choose_col_july6[OF cx _ fr] cols_july6_def min_by_def rc)
  have "42 \<notin> used \<lparr>sol = [0], used = {0, 1, 7, 13, 20, 43}, tries = 1\<rparr>" by simp
  with last have ne: "used \<lparr>sol = [0], used = {0, 1, 7, 13, 20, 43}, tries = 1\<rparr> \<noteq> universe cx" by blast
  have cr: "col_to_rows cx 2 = Some [3]"
    by (simp add: col_to_rows_july6[OF cx] len upt8 rc)
  have dj: "{2, 3, 8, 14, 15, 46} \<inter> used \<lparr>sol = [0], used = {0, 1, 7, 13, 20, 43}, tries = 1\<rparr> = {}" by simp
  have e: "\<lparr>sol = sol \<lparr>sol = [0], used = {0, 1, 7, 13, 20, 43}, tries = 1\<rparr> @ [3], used = used \<lparr>sol = [0], used = {0, 1, 7, 13, 20, 43}, tries = 1\<rparr> \<union> {2, 3, 8, 14, 15, 46}, tries = tries \<lparr>sol = [0], used = {0, 1, 7, 13, 20, 43}, tries = 1\<rparr> + 1\<rparr>
        = \<lparr>sol = [0, 3], used = {0, 1, 2, 3, 7, 8, 13, 14, 15, 20, 43, 46}, tries = 2\<rparr>"
    by auto
  have nx: "search 7 sorted_list_of_set cx
      \<lparr>sol = sol \<lparr>sol = [0], used = {0, 1, 7, 13, 20, 43}, tries = 1\<rparr> @ [3], used = used \<lparr>sol = [0], used = {0, 1, 7, 13, 20, 43}, tries = 1\<rparr> \<union> {2, 3, 8, 14, 15, 46}, tries = tries \<lparr>sol = [0], used = {0, 1, 7, 13, 20, 43}, tries = 1\<rparr> + 1\<rparr>
        = Some (Inr (True, ?fin))"
    unfolding e by (rule r2)
  have r1: "search 8 sorted_list_of_set cx \<lparr>sol = [0], used = {0, 1, 7, 13, 20, 43}, tries = 1\<rparr> = Some (Inr (True, ?fin))"
    by (rule branch_success(1)[OF _ ne ch cr rows(4) dj nx]) simp
  have fr: "filter (\<lambda>r. set (squares (tiling_july6 ! r)) \<inter> {} = {}) [0..<length tiling_july6] = [0, 1, 2, 3, 4, 5, 6, 7]"
    by (simp add: tiling_july6_def upt8)
  have ch: "choose_col sorted_list_of_set cx \<lparr>sol = [], used = {}, tries = 0\<rparr> = Inr 0"
    by (simp add: choose_col_july6[OF cx _ fr] cols_july6_def min_by_def rc)
  have "42 \<notin> used \<lparr>sol = [], used = {}, tries = 0\<rparr>" by simp
  with last have ne: "used \<lparr>sol = [], used = {}, tries = 0\<rparr> \<noteq> universe cx" by blast
  have cr: "col_to_rows cx 0 = Some [0]"
    by (simp add: col_to_rows_july6[OF cx] len upt8 rc)
  have dj: "{0, 1, 7, 13, 20, 43} \<inter> used \<lparr>sol = [], used = {}, tries = 0\<rparr> = {}" by simp
  have e: "\<lparr>sol = sol \<lparr>sol = [], used = {}, tries = 0\<rparr> @ [0], used = used \<lparr>sol = [], used = {}, tries = 0\<rparr> \<union> {0, 1, 7, 13, 20, 43}, tries = tries \<lparr>sol = [], used = {}, tries = 0\<rparr> + 1\<rparr>
        = \<lparr>sol = [0], used = {0, 1, 7, 13, 20, 43}, tries = 1\<rparr>"
    by auto
  have nx: "search 8 sorted_list_of_set cx
      \<lparr>sol = sol \<lparr>sol = [], used = {}, tries = 0\<rparr> @ [0], used = used \<lparr>sol = [], used = {}, tries = 0\<rparr> \<union> {0, 1, 7, 13, 20, 43}, tries = tries \<lparr>sol = [], used = {}, tries = 0\<rparr> + 1\<rparr>
        = Some (Inr (True, ?fin))"
    unfolding e by (rule r1)
  show "search 9 sorted_list_of_set cx \<lparr>sol = [], used = {}, tries = 0\<rparr> = Some (Inr (True, ?fin))"
    by (rule branch_success(1)[OF _ ne ch cr rows(1) dj nx]) simp
  show "for_rows 8 sorted_list_of_set cx [0] \<lparr>sol = [], used = {}, tries = 0\<rparr> = Some (Inr (True, ?fin))"
    by (rule branch_success(2)[OF refl ne ch cr rows(1) dj nx])
qed

lemma spare_rows:
  assumes cx: "make_ctx spare_july6 ex_july6 = Inr cx"
  shows "row_cols cx 0 = Inr {0, 1, 7, 13, 20, 43}"
    and "row_cols cx 1 = Inr {18, 24, 25, 32, 39, 44}"
    and "row_cols cx 2 = Inr {16, 23, 30, 31, 38, 45}"
    and "row_cols cx 3 = Inr {2, 3, 8, 14, 15, 46}"
    and "row_cols cx 4 = Inr {33, 34, 35, 40, 41, 42, 47}"
    and "row_cols cx 5 = Inr {4, 5, 9, 10, 11, 48}"
    and "row_cols cx 6 = Inr {21, 22, 29, 36, 37, 49}"
    and "row_cols cx 7 = Inr {19, 26, 33, 34, 35, 50}"
    and "row_cols cx 8 = Inr {12, 19, 26, 33, 34, 43}"
    and "row_cols cx 9 = Inr {27, 28, 29, 30, 34, 43}"
  by (auto simp: row_cols_Inr ctx_july6(1-3)[OF cx] spare_july6_def piece_col_items_def)

lemma spare_rc:
  assumes cx: "make_ctx spare_july6 ex_july6 = Inr cx"
  shows "rc_of cx 0 = {0, 1, 7, 13, 20, 43}"
    and "rc_of cx 1 = {18, 24, 25, 32, 39, 44}"
    and "rc_of cx 2 = {16, 23, 30, 31, 38, 45}"
    and "rc_of cx 3 = {2, 3, 8, 14, 15, 46}"
    and "rc_of cx 4 = {33, 34, 35, 40, 41, 42, 47}"
    and "rc_of cx 5 = {4, 5, 9, 10, 11, 48}"
    and "rc_of cx 6 = {21, 22, 29, 36, 37, 49}"
    and "rc_of cx 7 = {19, 26, 33, 34, 35, 50}"
    and "rc_of cx 8 = {12, 19, 26, 33, 34, 43}"
    and "rc_of cx 9 = {27, 28, 29, 30, 34, 43}"
  unfolding rc_of_def spare_rows[OF cx] by simp_all

lemma spare_choose:
  assumes cx: "make_ctx spare_july6 ex_july6 = Inr cx"
  shows "choose_col sorted_list_of_set cx \<lparr>sol = [], used = {}, tries = 0\<rparr> = Inr 0"
    and "col_to_rows cx 0 = Some [0]"
    and "choose_col sorted_list_of_set cx \<lparr>sol = [0], used = {0, 1, 7, 13, 20, 43}, tries = 1\<rparr>
           = Inr 2"
    and "col_to_rows cx 2 = Some [3]"
    and "col_to_rows cx 12 = Some [8]"
proof -
  note rc = spare_rc[OF cx] spare_rc(2)[OF cx, unfolded One_nat_def]
  have len: "length spare_july6 = 10" by (simp add: spare_july6_def)
  have fr0: "filter (\<lambda>r. set (squares (spare_july6 ! r)) \<inter> {} = {}) [0..<length spare_july6]
               = [0, 1, 2, 3, 4, 5, 6, 7, 8, 9]"
    by (simp add: len upt10)
  show "choose_col sorted_list_of_set cx \<lparr>sol = [], used = {}, tries = 0\<rparr> = Inr 0"
    by (simp add: choose_col_july6[OF cx _ fr0] cols_july6_def min_by_def rc)
  have fr1: "filter (\<lambda>r. set (squares (spare_july6 ! r)) \<inter> {0, 1, 7, 13, 20, 43} = {})
               [0..<length spare_july6] = [1, 2, 3, 4, 5, 6, 7, 8, 9]"
    by (simp add: spare_july6_def upt10)
  show "choose_col sorted_list_of_set cx \<lparr>sol = [0], used = {0, 1, 7, 13, 20, 43}, tries = 1\<rparr>
           = Inr 2"
    by (simp add: choose_col_july6[OF cx _ fr1] cols_july6_def min_by_def rc)
  show "col_to_rows cx 0 = Some [0]" "col_to_rows cx 2 = Some [3]" "col_to_rows cx 12 = Some [8]"
    by (simp_all add: col_to_rows_july6[OF cx] len upt10 rc)
qed

lemma tiling_pieces: "\<forall>pl \<in> set tiling_july6. piece pl \<in> fst ` set PIECES"
  by (simp add: tiling_july6_def PIECES_def)

lemma spare_pieces: "\<forall>pl \<in> set spare_july6. piece pl \<in> fst ` set PIECES"
  by (simp add: spare_july6_def PIECES_def)

lemma tiling_solved:
  "solve_exact_cover 9 sorted_list_of_set tiling_july6 ex_july6
     = Some (Inr (Some (map ((!) tiling_july6) [0, 3, 5, 7, 2, 1, 6, 4]), 8))"
proof -
  from make_ctx_july6[OF tiling_pieces] obtain cx where
    cx: "make_ctx tiling_july6 ex_july6 = Inr cx" by blast
  have "rows_to_placements tiling_july6 [0, 3, 5, 7, 2, 1, 6, 4]
          = Inr (map ((!) tiling_july6) [0, 3, 5, 7, 2, 1, 6, 4])"
    by (rule rows_to_placements_eq) (simp add: tiling_july6_def)
  then show ?thesis
    by (simp add: solve_exact_cover_def cx tiling_run(1)[OF cx])
qed

theorem choose_col_least_slack_witness:
  "\<exists>cx c. make_ctx spare_july6 ex_july6 = Inr cx
     \<and> set (sorted_list_of_set (universe cx - {0, 1, 7, 13, 20, 43}))
          = universe cx - {0, 1, 7, 13, 20, 43}
     \<and> {0, 1, 7, 13, 20, 43} \<subseteq> universe cx \<and> {0, 1, 7, 13, 20, 43} \<noteq> universe cx
     \<and> choose_col sorted_list_of_set cx \<lparr>sol = [0], used = {0, 1, 7, 13, 20, 43}, tries = 1\<rparr> = Inr c
     \<and> c = 2 \<and> c \<in> universe cx \<and> c \<notin> {0, 1, 7, 13, 20, 43}
     \<and> (\<forall>c' \<in> universe cx - {0, 1, 7, 13, 20, 43}.
           length (free_rows cx {0, 1, 7, 13, 20, 43} c)
             \<le> length (free_rows cx {0, 1, 7, 13, 20, 43} c'))"
proof -
  define U :: "nat set" where "U = {0, 1, 7, 13, 20, 43}"
  define s where "s = \<lparr>sol = [0], used = U, tries = 1\<rparr>"
  have us: "used s = U" by (simp add: s_def)
  from make_ctx_july6[OF spare_pieces] obtain cx where
    cx: "make_ctx spare_july6 ex_july6 = Inr cx" by blast
  have u: "universe cx = {i. i < 51 \<and> i \<noteq> 6 \<and> i \<noteq> 17}" by (rule ctx_july6(4)[OF cx])
  have fin: "finite (universe cx - U)" by (simp add: u)
  have order: "set (sorted_list_of_set (universe cx - used s)) = universe cx - used s"
    unfolding us using fin by simp
  have sub: "used s \<subseteq> universe cx" by (simp add: us u U_def)
  have "2 \<in> universe cx" "2 \<notin> U" by (simp_all add: u U_def)
  then have ne: "used s \<noteq> universe cx" unfolding us by blast
  from choose_col_least_slack[where iter = sorted_list_of_set and s = s, OF cx order sub ne]
  obtain c where
    c: "choose_col sorted_list_of_set cx s = Inr c" "c \<in> universe cx" "c \<notin> used s"
      "\<forall>c' \<in> universe cx - used s.
          length (free_rows cx (used s) c) \<le> length (free_rows cx (used s) c')"
    by blast
  from c(1) spare_choose(3)[OF cx] have c2: "c = 2" by (simp add: s_def U_def)
  show ?thesis
  proof (intro exI[of _ cx] exI[of _ c] conjI)
    show "make_ctx spare_july6 ex_july6 = Inr cx" by (rule cx)
    show "set (sorted_list_of_set (universe cx - {0, 1, 7, 13, 20, 43}))
          = universe cx - {0, 1, 7, 13, 20, 43}" using order unfolding us U_def .
    show "{0, 1, 7, 13, 20, 43} \<subseteq> universe cx" using sub unfolding us U_def .
    show "{0, 1, 7, 13, 20, 43} \<noteq> universe cx" using ne unfolding us U_def .
    show "choose_col sorted_list_of_set cx \<lparr>sol = [0], used = {0, 1, 7, 13, 20, 43}, tries = 1\<rparr> = Inr c"
      using c(1) unfolding s_def U_def .
    show "c = 2" by (rule c2)
    show "c \<in> universe cx" by (rule c(2))
    show "c \<notin> {0, 1, 7, 13, 20, 43}" using c(3) unfolding us U_def .
    show "\<forall>c' \<in> universe cx - {0, 1, 7, 13, 20, 43}.
           length (free_rows cx {0, 1, 7, 13, 20, 43} c)
             \<le> length (free_rows cx {0, 1, 7, 13, 20, 43} c')"
      using c(4) unfolding us U_def .
  qed
qed


text \<open>
  Claim C4 fails as stated. For \<open>spare_july6\<close> the first call of \<open>choose\<close> returns
  column 0, whose only row is row 0 (piece A on squares 0, 1, 7, 13, 20), so \<open>search\<close> is
  entered again with \<open>used\<close> = {0, 1, 7, 13, 20, 43}. There \<open>choose\<close> returns column 2,
  which has one candidate row that does not conflict with \<open>used\<close>. Column 12 is not used
  and has none: its only row is a placement of piece A, whose piece column 43 is used.
  \<open>choose\<close> counts that row, because it tests the squares only.
\<close>

theorem choose_col_counts_rows_of_used_piece:
  "\<exists>cx. make_ctx spare_july6 ex_july6 = Inr cx
     \<and> set spare_july6 \<subseteq> set (generated ex_july6)
     \<and> choose_col sorted_list_of_set cx \<lparr>sol = [], used = {}, tries = 0\<rparr> = Inr 0
     \<and> col_to_rows cx 0 = Some [0]
     \<and> row_cols cx 0 = Inr {0, 1, 7, 13, 20, 43}
     \<and> {0, 1, 7, 13, 20, 43} \<noteq> universe cx
     \<and> choose_col sorted_list_of_set cx \<lparr>sol = [0], used = {0, 1, 7, 13, 20, 43}, tries = 1\<rparr>
          = Inr 2
     \<and> unconflicted_rows cx {0, 1, 7, 13, 20, 43} 2 = [3]
     \<and> 12 \<in> universe cx \<and> 12 \<notin> {0, 1, 7, 13, 20, 43 :: nat}
     \<and> unconflicted_rows cx {0, 1, 7, 13, 20, 43} 12 = []
     \<and> free_rows cx {0, 1, 7, 13, 20, 43} 12 = [8]"
proof -
  from make_ctx_july6[OF spare_pieces] obtain cx where
    cx: "make_ctx spare_july6 ex_july6 = Inr cx" by blast
  note ch = spare_choose[OF cx]
  note rc = spare_rc[OF cx]
  have u: "universe cx = {i. i < 51 \<and> i \<noteq> 6 \<and> i \<noteq> 17}" by (rule ctx_july6(4)[OF cx])
  have m: "12 \<in> universe cx" "12 \<notin> {0, 1, 7, 13, 20, 43 :: nat}" by (simp_all add: u)
  then have ne: "{0, 1, 7, 13, 20, 43} \<noteq> universe cx" by blast
  have u2: "unconflicted_rows cx {0, 1, 7, 13, 20, 43} 2 = [3]"
    by (simp add: unconflicted_rows_def ch(4) rc)
  have u12: "unconflicted_rows cx {0, 1, 7, 13, 20, 43} 12 = []"
    by (simp add: unconflicted_rows_def ch(5) rc)
  have f12: "free_rows cx {0, 1, 7, 13, 20, 43} 12 = [8]"
    by (simp add: free_rows_def ch(5) ctx_july6(1)[OF cx] spare_july6_def)
  show ?thesis
  proof (intro exI[of _ cx] conjI)
    show "make_ctx spare_july6 ex_july6 = Inr cx" by (rule cx)
    show "set spare_july6 \<subseteq> set (generated ex_july6)" by (rule spare_generated)
    show "choose_col sorted_list_of_set cx \<lparr>sol = [], used = {}, tries = 0\<rparr> = Inr 0"
      by (rule ch(1))
    show "col_to_rows cx 0 = Some [0]" by (rule ch(2))
    show "row_cols cx 0 = Inr {0, 1, 7, 13, 20, 43}" by (rule spare_rows(1)[OF cx])
    show "{0, 1, 7, 13, 20, 43} \<noteq> universe cx" by (rule ne)
    show "choose_col sorted_list_of_set cx \<lparr>sol = [0], used = {0, 1, 7, 13, 20, 43}, tries = 1\<rparr>
          = Inr 2" by (rule ch(3))
    show "unconflicted_rows cx {0, 1, 7, 13, 20, 43} 2 = [3]" by (rule u2)
    show "12 \<in> universe cx" by (rule m(1))
    show "12 \<notin> {0, 1, 7, 13, 20, 43 :: nat}" by (rule m(2))
    show "unconflicted_rows cx {0, 1, 7, 13, 20, 43} 12 = []" by (rule u12)
    show "free_rows cx {0, 1, 7, 13, 20, 43} 12 = [8]" by (rule f12)
  qed
qed

theorem solution_is_exact_cover_witness:
  "\<exists>ps. generate_placements ex_july6 = Inr (generated ex_july6)
     \<and> set tiling_july6 \<subseteq> set (generated ex_july6)
     \<and> solve_exact_cover 9 sorted_list_of_set tiling_july6 ex_july6 = Some (Inr (Some ps, 8))
     \<and> map piece ps = [''A'', ''D'', ''F'', ''H'', ''C'', ''B'', ''G'', ''E'']
     \<and> length ps = 8 \<and> distinct (map piece ps) \<and> set (map piece ps) = fst ` set PIECES
     \<and> (\<Union>p \<in> set ps. set (squares p)) = {i. i < 43 \<and> BOARD_CELLS ! i \<notin> ex_july6}
     \<and> (\<forall>i < length ps. \<forall>j < length ps. i \<noteq> j \<longrightarrow>
           set (squares (ps ! i)) \<inter> set (squares (ps ! j)) = {})
     \<and> set ps \<subseteq> set tiling_july6"
proof -
  define ps where "ps = map ((!) tiling_july6) [0, 3, 5, 7, 2, 1, 6, 4]"
  have names: "map piece ps = [''A'', ''D'', ''F'', ''H'', ''C'', ''B'', ''G'', ''E'']"
    by (simp add: ps_def tiling_july6_def)
  have solved: "solve_exact_cover 9 sorted_list_of_set tiling_july6 ex_july6
      = Some (Inr (Some ps, 8))"
    unfolding ps_def by (rule tiling_solved)
  note r = solution_is_exact_cover[OF generate_placements_eq tiling_generated solved]
  show ?thesis
  proof (intro exI[of _ ps] conjI)
    show "generate_placements ex_july6 = Inr (generated ex_july6)"
      by (rule generate_placements_eq)
    show "set tiling_july6 \<subseteq> set (generated ex_july6)" by (rule tiling_generated)
    show "solve_exact_cover 9 sorted_list_of_set tiling_july6 ex_july6 = Some (Inr (Some ps, 8))"
      by (rule solved)
    show "map piece ps = [''A'', ''D'', ''F'', ''H'', ''C'', ''B'', ''G'', ''E'']" by (rule names)
    show "length ps = 8" using r by (rule conjunct1)
    show "distinct (map piece ps)" using r[THEN conjunct2] by (rule conjunct1)
    show "set (map piece ps) = fst ` set PIECES"
      using r[THEN conjunct2, THEN conjunct2] by (rule conjunct1)
    show "(\<Union>p \<in> set ps. set (squares p)) = {i. i < 43 \<and> BOARD_CELLS ! i \<notin> ex_july6}"
      using r[THEN conjunct2, THEN conjunct2, THEN conjunct2] by (rule conjunct1)
    show "\<forall>i < length ps. \<forall>j < length ps. i \<noteq> j \<longrightarrow>
           set (squares (ps ! i)) \<inter> set (squares (ps ! j)) = {}"
      using r[THEN conjunct2, THEN conjunct2, THEN conjunct2, THEN conjunct2] by (rule conjunct1)
    show "set ps \<subseteq> set tiling_july6"
      using r[THEN conjunct2, THEN conjunct2, THEN conjunct2, THEN conjunct2] by (rule conjunct2)
  qed
qed


text \<open>
  Claim C3 fails as stated on the early return. For \<open>tiling_july6\<close> the branch of row 0
  entered from the initial state returns \<open>True\<close>, and so does \<open>search\<close>; \<open>sol\<close> then holds
  the eight rows pushed and \<open>used\<close> is the universe, not the empty list and the empty set
  that the branch found.
\<close>

theorem search_success_keeps_rows:
  "\<exists>cx s'. make_ctx tiling_july6 ex_july6 = Inr cx
     \<and> row_cols cx 0 = Inr {0, 1, 7, 13, 20, 43}
     \<and> for_rows 8 sorted_list_of_set cx [0] \<lparr>sol = [], used = {}, tries = 0\<rparr>
          = Some (Inr (True, s'))
     \<and> search 9 sorted_list_of_set cx \<lparr>sol = [], used = {}, tries = 0\<rparr>
          = Some (Inr (True, s'))
     \<and> sol s' = [0, 3, 5, 7, 2, 1, 6, 4] \<and> used s' = universe cx
     \<and> sol s' \<noteq> sol \<lparr>sol = [], used = {}, tries = 0\<rparr>
     \<and> used s' \<noteq> used \<lparr>sol = [], used = {}, tries = 0\<rparr>"
proof -
  from make_ctx_july6[OF tiling_pieces] obtain cx where
    cx: "make_ctx tiling_july6 ex_july6 = Inr cx" by blast
  define fin where "fin = \<lparr>sol = [0, 3, 5, 7, 2, 1, 6, 4], used = universe cx, tries = 8\<rparr>"
  have "0 \<in> universe cx" by (simp add: ctx_july6(4)[OF cx])
  then have un: "universe cx \<noteq> {}" by blast
  show ?thesis
  proof (intro exI[of _ cx] exI[of _ fin] conjI)
    show "make_ctx tiling_july6 ex_july6 = Inr cx" by (rule cx)
    show "row_cols cx 0 = Inr {0, 1, 7, 13, 20, 43}" by (rule tiling_rows(1)[OF cx])
    show "for_rows 8 sorted_list_of_set cx [0] \<lparr>sol = [], used = {}, tries = 0\<rparr>
          = Some (Inr (True, fin))" unfolding fin_def by (rule tiling_run(2)[OF cx])
    show "search 9 sorted_list_of_set cx \<lparr>sol = [], used = {}, tries = 0\<rparr>
          = Some (Inr (True, fin))" unfolding fin_def by (rule tiling_run(1)[OF cx])
    show "sol fin = [0, 3, 5, 7, 2, 1, 6, 4]" by (simp add: fin_def)
    show "used fin = universe cx" by (simp add: fin_def)
    show "sol fin \<noteq> sol \<lparr>sol = [], used = {}, tries = 0\<rparr>" by (simp add: fin_def)
    show "used fin \<noteq> used \<lparr>sol = [], used = {}, tries = 0\<rparr>" using un by (simp add: fin_def)
  qed
qed

lemma single_run:
  assumes cx: "make_ctx [Placement ''A'' [0, 1, 7, 13, 20] (0, 0) 180 False] ex_july6 = Inr cx"
  shows "row_cols cx 0 = Inr {0, 1, 7, 13, 20, 43}"
    and "search 1 sorted_list_of_set cx \<lparr>sol = [], used = {}, tries = 0\<rparr>
           = Some (Inr (False, \<lparr>sol = [], used = {}, tries = 0\<rparr>))"
    and "search 1 sorted_list_of_set cx \<lparr>sol = [0], used = {0, 1, 7, 13, 20, 43}, tries = 1\<rparr>
           = Some (Inr (False, \<lparr>sol = [0], used = {0, 1, 7, 13, 20, 43}, tries = 1\<rparr>))"
proof -
  let ?pls = "[Placement ''A'' [0, 1, 7, 13, 20] (0, 0) 180 False]"
  show row: "row_cols cx 0 = Inr {0, 1, 7, 13, 20, 43}"
    by (auto simp: row_cols_Inr ctx_july6(1-3)[OF cx] piece_col_items_def)
  have rc: "rc_of cx 0 = {0, 1, 7, 13, 20, 43}" unfolding rc_of_def row by simp
  have u: "universe cx = {i. i < 51 \<and> i \<noteq> 6 \<and> i \<noteq> 17}" by (rule ctx_july6(4)[OF cx])
  have cr: "col_to_rows cx 2 = Some []"
    by (simp add: col_to_rows_july6[OF cx] rc)
  have in2: "2 \<in> universe cx" by (simp add: u)
  have "2 \<notin> used \<lparr>sol = [], used = {}, tries = 0\<rparr>"
    "2 \<notin> used \<lparr>sol = [0], used = {0, 1, 7, 13, 20, 43}, tries = 1\<rparr>" by simp_all
  with in2 have ne: "used \<lparr>sol = [], used = {}, tries = 0\<rparr> \<noteq> universe cx"
    "used \<lparr>sol = [0], used = {0, 1, 7, 13, 20, 43}, tries = 1\<rparr> \<noteq> universe cx" by blast+
  have fr0: "filter (\<lambda>r. set (squares (?pls ! r)) \<inter> {} = {}) [0..<length ?pls] = [0]"
    by simp
  have ch0: "choose_col sorted_list_of_set cx \<lparr>sol = [], used = {}, tries = 0\<rparr> = Inr 2"
    by (simp add: choose_col_july6[OF cx _ fr0] cols_july6_def min_by_def rc)
  have fr1: "filter (\<lambda>r. set (squares (?pls ! r)) \<inter> {0, 1, 7, 13, 20, 43} = {}) [0..<length ?pls] = []"
    by simp
  have ch1: "choose_col sorted_list_of_set cx \<lparr>sol = [0], used = {0, 1, 7, 13, 20, 43}, tries = 1\<rparr>
               = Inr 2"
    by (simp add: choose_col_july6[OF cx _ fr1] cols_july6_def min_by_def)
  show "search 1 sorted_list_of_set cx \<lparr>sol = [], used = {}, tries = 0\<rparr>
           = Some (Inr (False, \<lparr>sol = [], used = {}, tries = 0\<rparr>))"
  proof -
    have "search 1 sorted_list_of_set cx \<lparr>sol = [], used = {}, tries = 0\<rparr>
        = for_rows 0 sorted_list_of_set cx [] \<lparr>sol = [], used = {}, tries = 0\<rparr>"
      by (rule search_enters[OF _ ne(1) ch0 cr]) simp
    then show ?thesis by (simp only: for_rows.simps)
  qed
  show "search 1 sorted_list_of_set cx \<lparr>sol = [0], used = {0, 1, 7, 13, 20, 43}, tries = 1\<rparr>
           = Some (Inr (False, \<lparr>sol = [0], used = {0, 1, 7, 13, 20, 43}, tries = 1\<rparr>))"
  proof -
    have "search 1 sorted_list_of_set cx \<lparr>sol = [0], used = {0, 1, 7, 13, 20, 43}, tries = 1\<rparr>
        = for_rows 0 sorted_list_of_set cx [] \<lparr>sol = [0], used = {0, 1, 7, 13, 20, 43}, tries = 1\<rparr>"
      by (rule search_enters[OF _ ne(2) ch1 cr]) simp
    then show ?thesis by (simp only: for_rows.simps)
  qed
qed


theorem search_undo_on_failure_only_witness:
  "\<exists>cx cxT fin. make_ctx [Placement ''A'' [0, 1, 7, 13, 20] (0, 0) 180 False] ex_july6 = Inr cx
     \<and> row_cols cx 0 = Inr {0, 1, 7, 13, 20, 43}
     \<and> search 1 sorted_list_of_set cx \<lparr>sol = [0], used = {0, 1, 7, 13, 20, 43}, tries = 1\<rparr>
          = Some (Inr (False, \<lparr>sol = [0], used = {0, 1, 7, 13, 20, 43}, tries = 1\<rparr>))
     \<and> for_rows 1 sorted_list_of_set cx [0] \<lparr>sol = [], used = {}, tries = 0\<rparr>
          = Some (Inr (False, \<lparr>sol = [], used = {}, tries = 1\<rparr>))
     \<and> search 1 sorted_list_of_set cx \<lparr>sol = [], used = {}, tries = 0\<rparr>
          = Some (Inr (False, \<lparr>sol = [], used = {}, tries = 0\<rparr>))
     \<and> for_rows 1 sorted_list_of_set cx [] \<lparr>sol = [], used = {}, tries = 0\<rparr>
          = Some (Inr (False, \<lparr>sol = [], used = {}, tries = 0\<rparr>))
     \<and> {0, 1, 7, 13, 20, 43} \<inter> used \<lparr>sol = [0], used = {0, 1, 7, 13, 20, 43}, tries = 1\<rparr> \<noteq> {}
     \<and> for_rows 1 sorted_list_of_set cx [0] \<lparr>sol = [0], used = {0, 1, 7, 13, 20, 43}, tries = 1\<rparr>
          = Some (Inr (False, \<lparr>sol = [0], used = {0, 1, 7, 13, 20, 43}, tries = 2\<rparr>))
     \<and> make_ctx tiling_july6 ex_july6 = Inr cxT
     \<and> for_rows 8 sorted_list_of_set cxT [0] \<lparr>sol = [], used = {}, tries = 0\<rparr>
          = Some (Inr (True, fin))
     \<and> used fin = universe cxT
     \<and> (\<exists>rs. rs \<noteq> [] \<and> sol fin = rs \<and> push_rows cxT rs {} = Some (used fin))"
proof -
  define s0 where "s0 = \<lparr>sol = [], used = {}, tries = 0::nat\<rparr>"
  define s1 where "s1 = \<lparr>sol = [0], used = {0, 1, 7, 13, 20, 43}, tries = 1::nat\<rparr>"
  define rc :: "nat set" where "rc = {0, 1, 7, 13, 20, 43}"
  have "\<forall>pl \<in> set [Placement ''A'' [0, 1, 7, 13, 20] (0, 0) 180 False]. piece pl \<in> fst ` set PIECES"
    by (simp add: PIECES_def)
  from make_ctx_july6[OF this] obtain cx where
    cx: "make_ctx [Placement ''A'' [0, 1, 7, 13, 20] (0, 0) 180 False] ex_july6 = Inr cx" by blast
  note r = single_run[OF cx]
  from make_ctx_july6[OF tiling_pieces] obtain cxT where
    cxT: "make_ctx tiling_july6 ex_july6 = Inr cxT" by blast
  define fin where "fin = \<lparr>sol = [0, 3, 5, 7, 2, 1, 6, 4], used = universe cxT, tries = 8::nat\<rparr>"
  have t: "for_rows 8 sorted_list_of_set cxT [0] s0 = Some (Inr (True, fin))"
    unfolding s0_def fin_def by (rule tiling_run(2)[OF cxT])
  have push: "s0\<lparr>tries := tries s0 + 1, sol := sol s0 @ [0], used := used s0 \<union> rc\<rparr> = s1"
    by (simp add: s0_def s1_def rc_def)
  have undo: "s1\<lparr>sol := butlast (sol s1), used := used s1 - rc\<rparr>
      = \<lparr>sol = [], used = {}, tries = 1\<rparr>"
    by (simp add: s1_def rc_def)
  have r1: "row_cols cx 0 = Inr rc" unfolding rc_def by (rule r(1))
  have r2: "search 1 sorted_list_of_set cx s0 = Some (Inr (False, s0))"
    unfolding s0_def by (rule r(2))
  have r3: "search 1 sorted_list_of_set cx s1 = Some (Inr (False, s1))"
    unfolding s1_def by (rule r(3))
  have a: "row_cols cx 0 = Inr rc \<and> rc \<inter> used s0 = {}
      \<and> search 1 sorted_list_of_set cx
           (s0\<lparr>tries := tries s0 + 1, sol := sol s0 @ [0], used := used s0 \<union> rc\<rparr>)
           = Some (Inr (False, s1))"
    unfolding push using r1 r3 by (simp add: s0_def)
  have c: "for_rows 1 sorted_list_of_set cx [] s0 = Some (Inr (False, s0))" by simp
  note th = search_undo_on_failure_only[of cx 0 rc s0 1 sorted_list_of_set s1 "[]" s0]
  from th[THEN conjunct1, THEN mp, OF a]
  have "for_rows 1 sorted_list_of_set cx [0] s0
      = for_rows 1 sorted_list_of_set cx [] (s1\<lparr>sol := butlast (sol s1), used := used s1 - rc\<rparr>)"
    by (rule conjunct2[OF conjunct2])
  then have f: "for_rows 1 sorted_list_of_set cx [0] s0
      = Some (Inr (False, \<lparr>sol = [], used = {}, tries = 1\<rparr>))"
    unfolding undo by simp
  have cf: "rc \<inter> used s1 \<noteq> {}" by (simp add: rc_def s1_def)
  note thC = search_undo_on_failure_only[of cx 0 rc s1 1 sorted_list_of_set s1 "[]" s1]
  from thC[THEN conjunct2, THEN conjunct2, THEN conjunct2, THEN conjunct2, THEN mp, OF conjI[OF r1 cf]]
  have "for_rows 1 sorted_list_of_set cx [0] s1
      = for_rows 1 sorted_list_of_set cx [] (s1\<lparr>tries := tries s1 + 1\<rparr>)" .
  then have g: "for_rows 1 sorted_list_of_set cx [0] s1
      = Some (Inr (False, \<lparr>sol = [0], used = {0, 1, 7, 13, 20, 43}, tries = 2\<rparr>))"
    by (simp add: s1_def)
  note thT = search_undo_on_failure_only[of cxT 0 rc s0 8 sorted_list_of_set s1 "[0]" fin]
  from thT[THEN conjunct2, THEN conjunct2, THEN conjunct2, THEN conjunct1, THEN mp, OF t]
  have d0: "used fin = universe cxT
      \<and> (\<exists>rs. rs \<noteq> [] \<and> sol fin = sol s0 @ rs \<and> push_rows cxT rs (used s0) = Some (used fin))" .
  have d1: "used fin = universe cxT" using d0 by (rule conjunct1)
  have d2: "\<exists>rs. rs \<noteq> [] \<and> sol fin = rs \<and> push_rows cxT rs {} = Some (used fin)"
    using d0[THEN conjunct2] by (simp add: s0_def)
  show ?thesis
  proof (rule exI[of _ cx], rule exI[of _ cxT], rule exI[of _ fin], intro conjI)
    show "make_ctx [Placement ''A'' [0, 1, 7, 13, 20] (0, 0) 180 False] ex_july6 = Inr cx"
      by (rule cx)
    show "row_cols cx 0 = Inr {0, 1, 7, 13, 20, 43}" by (rule r(1))
    show "search 1 sorted_list_of_set cx \<lparr>sol = [0], used = {0, 1, 7, 13, 20, 43}, tries = 1\<rparr>
          = Some (Inr (False, \<lparr>sol = [0], used = {0, 1, 7, 13, 20, 43}, tries = 1\<rparr>))"
      by (rule r(3))
    show "for_rows 1 sorted_list_of_set cx [0] \<lparr>sol = [], used = {}, tries = 0\<rparr>
          = Some (Inr (False, \<lparr>sol = [], used = {}, tries = 1\<rparr>))"
      using f unfolding s0_def .
    show "search 1 sorted_list_of_set cx \<lparr>sol = [], used = {}, tries = 0\<rparr>
          = Some (Inr (False, \<lparr>sol = [], used = {}, tries = 0\<rparr>))" by (rule r(2))
    show "for_rows 1 sorted_list_of_set cx [] \<lparr>sol = [], used = {}, tries = 0\<rparr>
          = Some (Inr (False, \<lparr>sol = [], used = {}, tries = 0\<rparr>))" by simp
    show "{0, 1, 7, 13, 20, 43} \<inter> used \<lparr>sol = [0], used = {0, 1, 7, 13, 20, 43}, tries = 1\<rparr> \<noteq> {}"
      using cf unfolding rc_def s1_def .
    show "for_rows 1 sorted_list_of_set cx [0] \<lparr>sol = [0], used = {0, 1, 7, 13, 20, 43}, tries = 1\<rparr>
          = Some (Inr (False, \<lparr>sol = [0], used = {0, 1, 7, 13, 20, 43}, tries = 2\<rparr>))"
      using g unfolding s1_def .
    show "make_ctx tiling_july6 ex_july6 = Inr cxT" by (rule cxT)
    show "for_rows 8 sorted_list_of_set cxT [0] \<lparr>sol = [], used = {}, tries = 0\<rparr>
          = Some (Inr (True, fin))" using t unfolding s0_def .
    show "used fin = universe cxT" by (rule d1)
    show "\<exists>rs. rs \<noteq> [] \<and> sol fin = rs \<and> push_rows cxT rs {} = Some (used fin)" by (rule d2)
  qed
qed

end
